theory Spec2Isabelle
  imports Complex_Main "HOL-Library.AList" "HOL-Library.Log_Nat"
begin

section \<open>Data model (src/movie\_fetcher/src/models/movie.py)\<close>

text \<open>
  The pydantic models of the fetcher. Python's unbounded \<open>int\<close> is \<open>int\<close>, \<open>str\<close> is
  \<open>string\<close>, \<open>Optional[t]\<close> is \<open>t option\<close>, \<open>Dict[str, int]\<close> is an association list.
  The mean rating (a JSON number) is carried as a rational; nothing below computes with it.
  A \<open>date\<close> or \<open>datetime\<close> field holds the text it was parsed from: the model only needs to
  know whether parsing succeeded.
\<close>

record Keyword =
  kw_id :: int
  kw_name :: string

record Ids =
  trakt :: int
  slug :: string
  imdb :: "string option"
  tmdb :: "int option"

record Stats =
  watchers :: int
  plays :: int
  collectors :: int
  comments :: int
  lists :: int
  votes :: int
  recommended :: int

record Rating =
  r_rating :: rat
  r_votes :: int
  r_distribution :: "(string \<times> int) list"

record Movie =
  title :: string
  year :: int
  ids :: Ids
  tagline :: "string option"
  overview :: "string option"
  released :: "string option"
  runtime :: "int option"
  country :: "string option"
  updated_at :: "string option"
  trailer :: "string option"
  homepage :: "string option"
  status :: "string option"
  language :: "string option"
  available_translations :: "string list"
  genres :: "string list"
  certification :: "string option"
  stats :: Stats
  rating :: Rating
  "keywords" :: "Keyword list"

subsection \<open>\<open>str(int)\<close>\<close>

text \<open>Python's decimal rendering of an integer: a minus sign for negatives, no leading zeros.\<close>

definition digit_char :: "nat \<Rightarrow> char" where
  "digit_char d = char_of (48 + d)"

fun str_nat :: "nat \<Rightarrow> string" where
  "str_nat n = (if n < 10 then [digit_char n] else str_nat (n div 10) @ [digit_char (n mod 10)])"

declare str_nat.simps [simp del]

definition str_int :: "int \<Rightarrow> string" where
  "str_int i = (if i < 0 then CHR ''-'' # str_nat (nat (- i)) else str_nat (nat i))"

subsection \<open>\<open>Movie.get_filename\<close>\<close>

text \<open>
  \<open>str.isalnum\<close> is the Unicode classification of the Python runtime; it is a parameter
  \<open>isalnum\<close> of the model, and \<open>ascii_isalnum\<close> is its restriction to ASCII, used where a
  concrete run is evaluated.
\<close>

definition ascii_isalnum :: "char \<Rightarrow> bool" where
  "ascii_isalnum c =
     (let n = (of_char c :: nat)
      in (48 \<le> n \<and> n \<le> 57) \<or> (65 \<le> n \<and> n \<le> 90) \<or> (97 \<le> n \<and> n \<le> 122))"

definition clean_title :: "(char \<Rightarrow> bool) \<Rightarrow> string \<Rightarrow> string" where
  "clean_title isalnum t = map (\<lambda>c. if isalnum c then c else CHR ''_'') t"

definition get_filename :: "(char \<Rightarrow> bool) \<Rightarrow> Movie \<Rightarrow> string" where
  "get_filename isalnum m =
     clean_title isalnum (title m) @ ''_'' @ str_int (trakt (ids m)) @ ''.json''"

section \<open>Persistence store (src/movie\_fetcher/src/utils/file\_handler.py)\<close>

text \<open>
  The index file \<open>movies_index.json\<close> and the directory of item files. \<open>index_file\<close> is
  \<open>None\<close> while the index file does not exist. The directory is an association list from
  file name to the record dumped into the file; opening a file for writing replaces its content.
\<close>

record IndexEntry =
  e_id :: int
  e_title :: string
  e_year :: int
  e_filename :: string
  e_file_path :: string
  e_added_at :: string

record Index =
  movies :: "IndexEntry list"
  last_updated :: "string option"
  last_page :: int
  fetched_ids :: "int list"

record store =
  movies_dir :: string
  movie_files :: "(string \<times> Movie) list"
  index_file :: "Index option"

definition write_file :: "string \<Rightarrow> Movie \<Rightarrow> (string \<times> Movie) list \<Rightarrow> (string \<times> Movie) list" where
  "write_file name m files = AList.update name m files"

definition load_index :: "store \<Rightarrow> Index" where
  "load_index st =
     (case index_file st of
        Some ix \<Rightarrow> ix
      | None \<Rightarrow> \<lparr>movies = [], last_updated = None, last_page = 0, fetched_ids = []\<rparr>)"

definition save_index :: "string \<Rightarrow> IndexEntry list \<Rightarrow> int \<Rightarrow> store \<Rightarrow> store" where
  "save_index now movie_index lp st =
     st\<lparr>index_file := Some \<lparr>movies = movie_index, last_updated = Some now,
                             last_page = lp, fetched_ids = map e_id movie_index\<rparr>\<rparr>"

definition get_saved_count :: "store \<Rightarrow> nat" where
  "get_saved_count st = length (movie_files st)"

definition get_last_saved_movie :: "store \<Rightarrow> IndexEntry option" where
  "get_last_saved_movie st =
     (let index_data = load_index st
      in if movies index_data = [] then None else Some (last (movies index_data)))"

definition get_last_page :: "store \<Rightarrow> int" where
  "get_last_page st = last_page (load_index st)"

definition get_fetched_ids :: "store \<Rightarrow> int set" where
  "get_fetched_ids st = set (fetched_ids (load_index st))"

text \<open>
  The loop of \<open>save_movies\<close> over the new movies. Every call of \<open>datetime.now()\<close> is a
  reading \<open>now k\<close> of a clock, \<open>k\<close> counting the readings of this call of \<open>save_movies\<close>.
\<close>

definition index_entry :: "(char \<Rightarrow> bool) \<Rightarrow> string \<Rightarrow> string \<Rightarrow> Movie \<Rightarrow> IndexEntry" where
  "index_entry isalnum dir added m =
     \<lparr>e_id = trakt (ids m), e_title = title m, e_year = year m,
      e_filename = get_filename isalnum m,
      e_file_path = dir @ ''/'' @ get_filename isalnum m,
      e_added_at = added\<rparr>"

fun save_each ::
  "(char \<Rightarrow> bool) \<Rightarrow> string \<Rightarrow> (nat \<Rightarrow> string) \<Rightarrow> nat \<Rightarrow> Movie list \<Rightarrow>
   (string \<times> Movie) list \<times> IndexEntry list \<Rightarrow> (string \<times> Movie) list \<times> IndexEntry list" where
  "save_each isalnum dir now k [] acc = acc"
| "save_each isalnum dir now k (m # rest) (files, entries) =
     save_each isalnum dir now (Suc k) rest
       (write_file (get_filename isalnum m) m files,
        entries @ [index_entry isalnum dir (now k) m])"

definition save_movies ::
  "(char \<Rightarrow> bool) \<Rightarrow> (nat \<Rightarrow> string) \<Rightarrow> Movie list \<Rightarrow> int \<Rightarrow> store \<Rightarrow> store" where
  "save_movies isalnum now batch current_page st =
     (let index_data = load_index st;
          existing_movies = set (map e_id (movies index_data));
          new_movies = filter (\<lambda>m. trakt (ids m) \<notin> existing_movies) batch
      in if new_movies = [] then st
         else
           let (files, entries) =
                 save_each isalnum (movies_dir st) now 0 new_movies
                   (movie_files st, movies index_data)
           in save_index (now (length new_movies)) entries current_page
                (st\<lparr>movie_files := files\<rparr>))"

text \<open>
  The \<open>for\<close> loop of \<open>main\<close> over the generator's yields: each yielded batch is saved with
  its page. \<open>clock j k\<close> is the \<open>k\<close>-th clock reading during the \<open>j\<close>-th call of
  \<open>save_movies\<close>. \<open>run_stores\<close> lists the store before the loop and after every call.
\<close>

fun save_batches ::
  "(char \<Rightarrow> bool) \<Rightarrow> (nat \<Rightarrow> nat \<Rightarrow> string) \<Rightarrow> (Movie list \<times> int) list \<Rightarrow> store \<Rightarrow> store" where
  "save_batches isalnum clock [] st = st"
| "save_batches isalnum clock ((batch, current_page) # rest) st =
     save_batches isalnum (\<lambda>j. clock (Suc j)) rest
       (save_movies isalnum (clock 0) batch current_page st)"

fun run_stores ::
  "(char \<Rightarrow> bool) \<Rightarrow> (nat \<Rightarrow> nat \<Rightarrow> string) \<Rightarrow> (Movie list \<times> int) list \<Rightarrow> store \<Rightarrow> store list" where
  "run_stores isalnum clock [] st = [st]"
| "run_stores isalnum clock ((batch, current_page) # rest) st =
     st # run_stores isalnum (\<lambda>j. clock (Suc j)) rest
            (save_movies isalnum (clock 0) batch current_page st)"

section \<open>Rate limiter (\<open>TraktService._respect_rate_limit\<close>)\<close>

subsection \<open>Python floats\<close>

text \<open>
  Python's \<open>float\<close> is the IEEE 754 binary64 format: a sign, a significand of 53 bits and
  a power of two. The values of the format are represented here by the rationals they
  denote, and an operation by the exact operation on rationals followed by
  \<open>round_double\<close>, the rounding to the nearest value of the format, ties to the even
  significand. For \<open>x \<noteq> 0\<close> with \<open>2 ^ e \<le> \<bar>x\<bar> < 2 ^ (e + 1)\<close> the values around \<open>x\<close> are the
  multiples of \<open>2 ^ (e - 52)\<close>; \<open>exponent2\<close> computes \<open>e\<close> from the bit lengths of numerator
  and denominator. The range of the exponent is not bounded: overflow to infinity and the
  reduced precision of subnormal numbers (below \<open>2 ^ -1022\<close>) are not modelled. Times in
  seconds since the epoch and the delays computed from them are far inside the normal
  range, and a sum or difference of two binary64 numbers that falls into the subnormal
  range is exact.
\<close>

definition round_half_even :: "rat \<Rightarrow> int" where
  "round_half_even y =
     (let f = \<lfloor>y\<rfloor>; r = y - of_int f
      in if r < 1 / 2 then f else if 1 / 2 < r then f + 1 else if even f then f else f + 1)"

definition exponent2 :: "rat \<Rightarrow> int" where
  "exponent2 x =
     (let (a, b) = quotient_of x;
          d = bitlen a - bitlen b
      in if 2 powi d \<le> x then d else d - 1)"

definition round_double :: "rat \<Rightarrow> rat" where
  "round_double x =
     (if x = 0 then 0
      else let q = 2 powi (exponent2 \<bar>x\<bar> - 52) in of_int (round_half_even (x / q)) * q)"

subsection \<open>Constants\<close>

text \<open>
  The class constants of \<open>TraktService\<close>: 1000 requests in 300 seconds, the years of the
  listing, the batch size. \<open>MAX_REQUESTS\<close> and \<open>WINDOW_SIZE\<close> are Python integers;
  \<open>REQUEST_DELAY = WINDOW_SIZE / MAX_REQUESTS\<close> is Python's true division, whose result is
  the float nearest to the quotient.
\<close>

definition MAX_REQUESTS :: rat where "MAX_REQUESTS = 1000"
definition WINDOW_SIZE :: rat where "WINDOW_SIZE = 300"
definition REQUEST_DELAY :: rat where "REQUEST_DELAY = round_double (WINDOW_SIZE / MAX_REQUESTS)"
definition START_YEAR :: int where "START_YEAR = 2010"
definition END_YEAR :: int where "END_YEAR = 2023"
definition BATCH_SIZE :: nat where "BATCH_SIZE = 50"

subsection \<open>The wait point\<close>

text \<open>
  \<open>wall_clock\<close> is the time now, a rational number of seconds; \<open>time.time()\<close> returns the
  float nearest to it. \<open>last_request_time\<close> is the attribute of the service, a float (the
  integer 0 at the start). \<open>time.sleep(secs)\<close> suspends for \<open>secs\<close> plus an overshoot
  chosen by the scheduler; \<open>lag\<close> is the time that passes between the end of the wait and
  the second reading of the clock. The subtractions \<open>current_time - self.last_request_time\<close>
  and \<open>self.REQUEST_DELAY - time_since_last\<close> are float subtractions, the comparison is
  exact.
\<close>

record limiter =
  wall_clock :: rat
  last_request_time :: rat

definition time_time :: "limiter \<Rightarrow> rat" where
  "time_time w = round_double (wall_clock w)"

definition time_sleep :: "rat \<Rightarrow> rat \<Rightarrow> limiter \<Rightarrow> limiter" where
  "time_sleep overshoot secs w = w\<lparr>wall_clock := wall_clock w + secs + overshoot\<rparr>"

definition respect_rate_limit :: "rat \<Rightarrow> rat \<Rightarrow> limiter \<Rightarrow> limiter" where
  "respect_rate_limit overshoot lag w =
     (let current_time = time_time w;
          time_since_last = round_double (current_time - last_request_time w);
          w1 = (if time_since_last < REQUEST_DELAY
                then time_sleep overshoot (round_double (REQUEST_DELAY - time_since_last)) w
                else w);
          w2 = w1\<lparr>wall_clock := wall_clock w1 + lag\<rparr>
      in w2\<lparr>last_request_time := time_time w2\<rparr>)"

text \<open>
  A sequence of calls through the limiter. Each call comes with the time \<open>work\<close> spent
  by the caller since the previous call returned (the request and its processing), and the
  overshoot and lag of this call. The result lists \<open>last_request_time\<close> after every call.
\<close>

fun limiter_calls :: "(rat \<times> rat \<times> rat) list \<Rightarrow> limiter \<Rightarrow> rat list" where
  "limiter_calls [] w = []"
| "limiter_calls ((work, overshoot, lag) # rest) w =
     (let w' = respect_rate_limit overshoot lag (w\<lparr>wall_clock := wall_clock w + work\<rparr>)
      in last_request_time w' # limiter_calls rest w')"

text \<open>
  The rounding of the two clock readings and of the two subtractions can shorten the
  distance between two successive values \<open>a\<close> and \<open>b\<close> of \<open>last_request_time\<close> by a few
  units in the last place of the readings; \<open>rounding_slack a b\<close> bounds the loss.
\<close>

definition rounding_slack :: "rat \<Rightarrow> rat \<Rightarrow> rat" where
  "rounding_slack a b = (a + b + 1) / 2 ^ 50"

section \<open>HTTP\<close>

text \<open>
  The requests the fetcher sends: the Trakt listing \<open>/movies/popular\<close> with its \<open>page\<close>,
  \<open>limit\<close> and \<open>years\<close> parameters, the three Trakt lookups of one movie by slug, and the
  TMDB keyword lookup by TMDB id. A response is a status code and the value of
  \<open>response.json()\<close>; \<open>NoJson\<close> is a body that is not JSON of any shape the caller reads
  (decoding it, indexing it or validating it raises).
\<close>

datatype request =
    MoviesPopular int int "int \<times> int"
  | MovieDetails string
  | MovieStats string
  | MovieRatings string
  | TmdbKeywords int

record MovieJson =
  j_title :: string
  j_year :: int
  j_ids :: Ids
  j_tagline :: "string option"
  j_overview :: "string option"
  j_released :: "string option"
  j_runtime :: "int option"
  j_country :: "string option"
  j_updated_at :: "string option"
  j_trailer :: "string option"
  j_homepage :: "string option"
  j_status :: "string option"
  j_language :: "string option"
  j_available_translations :: "string list"
  j_genres :: "string list"
  j_certification :: "string option"

datatype json =
    PopularJson "Ids list"
  | DetailsJson MovieJson
  | StatsJson Stats
  | RatingsJson Rating
  | KeywordsJson "Keyword list"
  | NoJson

record response =
  status_code :: int
  body :: json

datatype error = HTTPError int | JSONError | ValueError

datatype event = RateLimit | Get request

text \<open>
  The world outside the process: \<open>server n r\<close> is the response to request \<open>r\<close> when \<open>n\<close>
  requests have been sent before it in this run (so a server may answer the same request
  differently over time); \<open>date_ok\<close> and \<open>datetime_ok\<close> say whether \<open>datetime.strptime\<close>
  accepts a text under the formats \<open>%Y-%m-%d\<close> and \<open>%Y-%m-%dT%H:%M:%S.%fZ\<close>.
\<close>

record env =
  server :: "nat \<Rightarrow> request \<Rightarrow> response"
  date_ok :: "string \<Rightarrow> bool"
  datetime_ok :: "string \<Rightarrow> bool"

text \<open>\<open>Response.raise_for_status\<close> of the requests library raises for 4xx and 5xx.\<close>

definition raise_for_status :: "response \<Rightarrow> error option" where
  "raise_for_status r =
     (if 400 \<le> status_code r \<and> status_code r < 600 then Some (HTTPError (status_code r)) else None)"

section \<open>Enrichment client (src/movie\_fetcher/src/services/tmdb\_service.py)\<close>

text \<open>
  Every client function below takes the number \<open>n\<close> of requests sent so far and returns the
  events it performed, the number of requests sent afterwards, and its value or the
  exception it raised.
\<close>

definition get_movie_keywords :: "env \<Rightarrow> nat \<Rightarrow> int \<Rightarrow> event list \<times> nat \<times> (error + Keyword list)" where
  "get_movie_keywords e n tmdb_id =
     (if tmdb_id = 0 then ([], n, Inr [])
      else
        let response = server e n (TmdbKeywords tmdb_id)
        in ([Get (TmdbKeywords tmdb_id)], Suc n,
            if status_code response = 404 then Inr []
            else case raise_for_status response of
                   Some err \<Rightarrow> Inl err
                 | None \<Rightarrow> (case body response of KeywordsJson ks \<Rightarrow> Inr ks | _ \<Rightarrow> Inl JSONError)))"

section \<open>Catalog client (src/movie\_fetcher/src/services/trakt\_service.py)\<close>

text \<open>
  \<open>TraktService.__init__\<close> reads the fetched ids and the page cursor from the store.
  (\<open>last_request_time\<close> is the limiter's state, modelled above.)
\<close>

record TraktService =
  self_fetched_ids :: "int set"
  start_page :: int

definition TraktService_init :: "store \<Rightarrow> TraktService" where
  "TraktService_init st =
     \<lparr>self_fetched_ids = get_fetched_ids st, start_page = get_last_page st + 1\<rparr>"

definition get_movie_details :: "env \<Rightarrow> nat \<Rightarrow> string \<Rightarrow> event list \<times> nat \<times> (error + MovieJson)" where
  "get_movie_details e n movie_id =
     (let response = server e n (MovieDetails movie_id)
      in ([RateLimit, Get (MovieDetails movie_id)], Suc n,
          case raise_for_status response of
            Some err \<Rightarrow> Inl err
          | None \<Rightarrow> (case body response of DetailsJson d \<Rightarrow> Inr d | _ \<Rightarrow> Inl JSONError)))"

definition get_movie_stats :: "env \<Rightarrow> nat \<Rightarrow> string \<Rightarrow> event list \<times> nat \<times> (error + Stats)" where
  "get_movie_stats e n movie_id =
     (let response = server e n (MovieStats movie_id)
      in ([RateLimit, Get (MovieStats movie_id)], Suc n,
          case raise_for_status response of
            Some err \<Rightarrow> Inl err
          | None \<Rightarrow> (case body response of StatsJson d \<Rightarrow> Inr d | _ \<Rightarrow> Inl JSONError)))"

definition get_movie_ratings :: "env \<Rightarrow> nat \<Rightarrow> string \<Rightarrow> event list \<times> nat \<times> (error + Rating)" where
  "get_movie_ratings e n movie_id =
     (let response = server e n (MovieRatings movie_id)
      in ([RateLimit, Get (MovieRatings movie_id)], Suc n,
          case raise_for_status response of
            Some err \<Rightarrow> Inl err
          | None \<Rightarrow> (case body response of RatingsJson d \<Rightarrow> Inr d | _ \<Rightarrow> Inl JSONError)))"

text \<open>
  The construction of the \<open>Movie\<close> object: the two \<open>strptime\<close> calls raise \<open>ValueError\<close> on
  a text they do not accept; an absent or empty text gives \<open>None\<close>.
\<close>

definition parse_optional :: "(string \<Rightarrow> bool) \<Rightarrow> string option \<Rightarrow> error + string option" where
  "parse_optional ok field =
     (case field of
        None \<Rightarrow> Inr None
      | Some s \<Rightarrow> if s = [] then Inr None else if ok s then Inr (Some s) else Inl ValueError)"

definition make_movie :: "env \<Rightarrow> MovieJson \<Rightarrow> Stats \<Rightarrow> Rating \<Rightarrow> Keyword list \<Rightarrow> error + Movie" where
  "make_movie e movie stats_data ratings_data kws =
     (case parse_optional (date_ok e) (j_released movie) of
        Inl err \<Rightarrow> Inl err
      | Inr rel \<Rightarrow>
          (case parse_optional (datetime_ok e) (j_updated_at movie) of
             Inl err \<Rightarrow> Inl err
           | Inr upd \<Rightarrow>
               Inr \<lparr>title = j_title movie, year = j_year movie, ids = j_ids movie,
                    tagline = j_tagline movie, overview = j_overview movie, released = rel,
                    runtime = j_runtime movie, country = j_country movie, updated_at = upd,
                    trailer = j_trailer movie, homepage = j_homepage movie,
                    status = j_status movie, language = j_language movie,
                    available_translations = j_available_translations movie,
                    genres = j_genres movie, certification = j_certification movie,
                    stats = stats_data, rating = ratings_data, keywords = kws\<rparr>))"

text \<open>
  The body of the \<open>for\<close> loop of \<open>get_top_movies\<close> for one new movie (lines 133 to 189): the
  details, stats and ratings lookups by slug, the keyword lookup when the TMDB id is
  present and not zero, then the \<open>Movie\<close> object.
\<close>

definition fetch_keywords :: "env \<Rightarrow> nat \<Rightarrow> MovieJson \<Rightarrow> event list \<times> nat \<times> (error + Keyword list)" where
  "fetch_keywords e n movie =
     (case tmdb (j_ids movie) of
        None \<Rightarrow> ([], n, Inr [])
      | Some t \<Rightarrow> if t = 0 then ([], n, Inr []) else get_movie_keywords e n t)"

definition fetch_movie :: "env \<Rightarrow> nat \<Rightarrow> Ids \<Rightarrow> event list \<times> nat \<times> (error + Movie)" where
  "fetch_movie e n movie_data =
     (let movie_slug = slug movie_data
      in case get_movie_details e n movie_slug of
           (ev1, n1, Inl err) \<Rightarrow> (ev1, n1, Inl err)
         | (ev1, n1, Inr movie) \<Rightarrow>
       (case get_movie_stats e n1 movie_slug of
           (ev2, n2, Inl err) \<Rightarrow> (ev1 @ ev2, n2, Inl err)
         | (ev2, n2, Inr stats_data) \<Rightarrow>
       (case get_movie_ratings e n2 movie_slug of
           (ev3, n3, Inl err) \<Rightarrow> (ev1 @ ev2 @ ev3, n3, Inl err)
         | (ev3, n3, Inr ratings_data) \<Rightarrow>
       (case fetch_keywords e n3 movie of
           (ev4, n4, Inl err) \<Rightarrow> (ev1 @ ev2 @ ev3 @ ev4, n4, Inl err)
         | (ev4, n4, Inr kws) \<Rightarrow>
             (ev1 @ ev2 @ ev3 @ ev4, n4, make_movie e movie stats_data ratings_data kws)))))"

text \<open>
  The generator \<open>get_top_movies\<close>. A run is observed through the pairs it yields, the
  events it performs and the way it ends: the \<open>while\<close> condition failing, the \<open>break\<close> on an
  empty listing, or an exception. The \<open>while\<close> loop need not end (a server may list fetched
  movies for ever), so it carries fuel: one unit for each listing request.
  The driver's calls of \<open>save_movies\<close> between two yields do not reach the generator, whose
  \<open>fetched_ids\<close> were read when the service was constructed.
\<close>

datatype stop = LimitReached | EmptyPage

datatype outcome = Finished stop | Raised error | OutOfFuel

record run =
  yields :: "(Movie list \<times> int) list"
  events :: "event list"
  result :: outcome

text \<open>
  The \<open>for\<close> loop over one listing page. Its state is the batch under construction, the
  count \<open>total_processed\<close> and the request counter; it ends with that state, or with the
  exception raised by a lookup.
\<close>

fun page_loop ::
  "env \<Rightarrow> int set \<Rightarrow> int \<Rightarrow> int \<Rightarrow> Ids list \<Rightarrow> Movie list \<times> int \<times> nat \<Rightarrow>
   (Movie list \<times> int) list \<times> event list \<times> nat \<times> (error + Movie list \<times> int)" where
  "page_loop e fetched limit page [] (ms, total_processed, n) =
     ([], [], n, Inr (ms, total_processed))"
| "page_loop e fetched limit page (movie_data # rest) (ms, total_processed, n) =
     (if total_processed \<ge> limit then ([], [], n, Inr (ms, total_processed))
      else if trakt movie_data \<in> fetched
        then page_loop e fetched limit page rest (ms, total_processed, n)
      else
        case fetch_movie e n movie_data of
          (ev, n', Inl err) \<Rightarrow> ([], ev, n', Inl err)
        | (ev, n', Inr movie_obj) \<Rightarrow>
            if length (ms @ [movie_obj]) \<ge> BATCH_SIZE
            then (case page_loop e fetched limit page rest ([], total_processed + 1, n') of
                    (ys, evs, n'', r) \<Rightarrow> ((ms @ [movie_obj], page) # ys, ev @ evs, n'', r))
            else (case page_loop e fetched limit page rest (ms @ [movie_obj], total_processed + 1, n') of
                    (ys, evs, n'', r) \<Rightarrow> (ys, ev @ evs, n'', r)))"

definition finish :: "stop \<Rightarrow> Movie list \<Rightarrow> int \<Rightarrow> run" where
  "finish why ms page =
     \<lparr>yields = (if ms \<noteq> [] then [(ms, page)] else []), events = [], result = Finished why\<rparr>"

definition listing_request :: "int \<Rightarrow> int \<Rightarrow> int \<Rightarrow> request" where
  "listing_request page limit total_processed =
     MoviesPopular page (min (limit - total_processed) 20) (START_YEAR, END_YEAR)"

fun top_loop :: "nat \<Rightarrow> env \<Rightarrow> int set \<Rightarrow> int \<Rightarrow> Movie list \<times> int \<times> int \<times> nat \<Rightarrow> run" where
  "top_loop 0 e fetched limit (ms, page, total_processed, n) =
     (if total_processed < limit then \<lparr>yields = [], events = [], result = OutOfFuel\<rparr>
      else finish LimitReached ms page)"
| "top_loop (Suc fuel) e fetched limit (ms, page, total_processed, n) =
     (if total_processed < limit then
        let req = listing_request page limit total_processed;
            response = server e n req;
            ev = [RateLimit, Get req]
        in case raise_for_status response of
             Some err \<Rightarrow> \<lparr>yields = [], events = ev, result = Raised err\<rparr>
           | None \<Rightarrow>
               (case body response of
                  PopularJson page_movies \<Rightarrow>
                    if page_movies = [] then (finish EmptyPage ms page)\<lparr>events := ev\<rparr>
                    else
                      (case page_loop e fetched limit page page_movies (ms, total_processed, Suc n) of
                         (ys, evs, n', Inl err) \<Rightarrow>
                           \<lparr>yields = ys, events = ev @ evs, result = Raised err\<rparr>
                       | (ys, evs, n', Inr (ms', total_processed')) \<Rightarrow>
                           let r = top_loop fuel e fetched limit (ms', page + 1, total_processed', n')
                           in r\<lparr>yields := ys @ yields r, events := ev @ evs @ events r\<rparr>)
                | _ \<Rightarrow> \<lparr>yields = [], events = ev, result = Raised JSONError\<rparr>)
      else finish LimitReached ms page)"

definition get_top_movies :: "nat \<Rightarrow> env \<Rightarrow> TraktService \<Rightarrow> int \<Rightarrow> run" where
  "get_top_movies fuel e self limit =
     top_loop fuel e (self_fetched_ids self) limit ([], start_page self, 0, 0)"

section \<open>Driver (src/movie\_fetcher/main.py)\<close>

text \<open>
  \<open>main\<close> counts the saved files, asks the generator for what is missing to reach 12000
  and saves every yielded batch. An exception of the generator ends the loop after the
  batches yielded before it were saved; \<open>main\<close> reports it and returns. The result is the
  store left behind and the way the generator ended (\<open>None\<close> when the target was already
  reached and no generator was run).
\<close>

definition target_total :: int where "target_total = 12000"

definition main ::
  "nat \<Rightarrow> (char \<Rightarrow> bool) \<Rightarrow> (nat \<Rightarrow> nat \<Rightarrow> string) \<Rightarrow> env \<Rightarrow> store \<Rightarrow> store \<times> outcome option" where
  "main fuel isalnum clock e st =
     (let saved_count = int (get_saved_count st);
          remaining = max 0 (target_total - saved_count)
      in if remaining = 0 then (st, None)
         else
           let trakt_service = TraktService_init st;
               r = get_top_movies fuel e trakt_service remaining
           in (save_batches isalnum clock (yields r) st, Some (result r)))"

section \<open>Observations used by the properties\<close>

subsection \<open>On the store\<close>

text \<open>
  The identifiers that \<open>save_movies\<close> treats as already stored, the item files whose record
  carries a given identifier, and the index entries of a given identifier.
\<close>

definition indexed :: "store \<Rightarrow> int set" where
  "indexed st = set (map e_id (movies (load_index st)))"

definition files_of_id :: "int \<Rightarrow> (string \<times> Movie) list \<Rightarrow> (string \<times> Movie) list" where
  "files_of_id i files = filter (\<lambda>(name, m). trakt (ids m) = i) files"

definition entries_of_id :: "int \<Rightarrow> IndexEntry list \<Rightarrow> IndexEntry list" where
  "entries_of_id i entries = filter (\<lambda>en. e_id en = i) entries"

text \<open>Every file holding a record of identifier \<open>i\<close> has a name generated for identifier \<open>i\<close>.\<close>

definition named_by_id :: "(char \<Rightarrow> bool) \<Rightarrow> int \<Rightarrow> (string \<times> Movie) list \<Rightarrow> bool" where
  "named_by_id isalnum i files =
     (\<forall>(name, x)\<in>set files.
        trakt (ids x) = i \<longrightarrow> (\<exists>y. trakt (ids y) = i \<and> name = get_filename isalnum y))"

subsection \<open>On the events of a run\<close>

text \<open>
  \<open>each_get P prev es\<close>: every request of the trace \<open>es\<close> satisfies \<open>P\<close> together with the
  event just before it (\<open>prev\<close> before the first event). \<open>through_limiter\<close> asks for a wait
  of the limiter just before the request; \<open>trakt_through_limiter\<close> asks for it before the
  requests to Trakt and for its absence before the requests to TMDB.
\<close>

definition is_trakt :: "request \<Rightarrow> bool" where
  "is_trakt r = (case r of TmdbKeywords t \<Rightarrow> False | _ \<Rightarrow> True)"

fun each_get :: "(event option \<Rightarrow> request \<Rightarrow> bool) \<Rightarrow> event option \<Rightarrow> event list \<Rightarrow> bool" where
  "each_get P prev [] = True"
| "each_get P prev (ev # es) =
     ((case ev of Get r \<Rightarrow> P prev r | RateLimit \<Rightarrow> True) \<and> each_get P (Some ev) es)"

definition through_limiter :: "event option \<Rightarrow> request \<Rightarrow> bool" where
  "through_limiter prev r = (prev = Some RateLimit)"

definition trakt_through_limiter :: "event option \<Rightarrow> request \<Rightarrow> bool" where
  "trakt_through_limiter prev r = (is_trakt r = (prev = Some RateLimit))"

text \<open>
  The number of detail lookups in a trace. A listing request is only sent when every movie
  taken up before it was completed, so at a listing request this number is
  \<open>total_processed\<close>. \<open>page_sizes_ok limit processed es\<close>: every listing request of \<open>es\<close> asks
  for \<open>min (limit - total_processed) 20\<close> movies, \<open>processed\<close> being the count before \<open>es\<close>.
\<close>

fun details_in :: "event list \<Rightarrow> int" where
  "details_in [] = 0"
| "details_in (Get (MovieDetails s) # es) = 1 + details_in es"
| "details_in (ev # es) = details_in es"

fun page_sizes_ok :: "int \<Rightarrow> int \<Rightarrow> event list \<Rightarrow> bool" where
  "page_sizes_ok limit processed [] = True"
| "page_sizes_ok limit processed (Get (MoviesPopular page sz yrs) # es) =
     (sz = min (limit - processed) 20 \<and> 0 < sz \<and> sz \<le> 20 \<and> page_sizes_ok limit processed es)"
| "page_sizes_ok limit processed (Get (MovieDetails s) # es) = page_sizes_ok limit (processed + 1) es"
| "page_sizes_ok limit processed (ev # es) = page_sizes_ok limit processed es"

fun first_listing_page :: "event list \<Rightarrow> int option" where
  "first_listing_page [] = None"
| "first_listing_page (Get (MoviesPopular page sz yrs) # es) = Some page"
| "first_listing_page (ev # es) = first_listing_page es"

text \<open>The pages of the listing requests of a trace, in the order of the requests.\<close>

fun listing_pages :: "event list \<Rightarrow> int list" where
  "listing_pages [] = []"
| "listing_pages (Get (MoviesPopular page sz yrs) # es) = page # listing_pages es"
| "listing_pages (ev # es) = listing_pages es"

text \<open>
  \<open>keywords_fatal e n es res\<close>: whenever a keyword lookup of the trace \<open>es\<close> (whose first
  request is the \<open>n\<close>-th of the run) is answered with a 4xx or 5xx status other than 404,
  the lookup is the last event of the run and the run ends with that HTTP error.
\<close>

fun gets_in :: "event list \<Rightarrow> nat" where
  "gets_in [] = 0"
| "gets_in (Get r # es) = Suc (gets_in es)"
| "gets_in (RateLimit # es) = gets_in es"

definition fatal_status :: "int \<Rightarrow> bool" where
  "fatal_status s = (400 \<le> s \<and> s < 600 \<and> s \<noteq> 404)"

fun keywords_fatal :: "env \<Rightarrow> nat \<Rightarrow> event list \<Rightarrow> outcome \<Rightarrow> bool" where
  "keywords_fatal e n [] res = True"
| "keywords_fatal e n (RateLimit # es) res = keywords_fatal e n es res"
| "keywords_fatal e n (Get r # es) res =
     ((case r of
         TmdbKeywords t \<Rightarrow>
           fatal_status (status_code (server e n r)) \<longrightarrow>
             es = [] \<and> res = Raised (HTTPError (status_code (server e n r)))
       | _ \<Rightarrow> True)
      \<and> keywords_fatal e (Suc n) es res)"

subsection \<open>On the yields of a run\<close>

text \<open>
  The number of movies yielded. \<open>batches_ok\<close>: every batch but the last has exactly
  \<open>BATCH_SIZE\<close> movies, and the last one is not empty and holds at most \<open>BATCH_SIZE\<close>.
  \<open>page_exhausted e q\<close>: the catalog ends before page \<open>q\<close>, whose listing is empty whenever
  and with whatever page size it is requested.
\<close>

definition yielded :: "(Movie list \<times> int) list \<Rightarrow> nat" where
  "yielded ys = sum_list (map (\<lambda>(b, p). length b) ys)"




section \<open>Example data\<close>

definition sample_movie :: "string \<Rightarrow> int \<Rightarrow> Movie" where
  "sample_movie t i =
     \<lparr>title = t, year = 2015,
      ids = \<lparr>trakt = i, slug = t, imdb = None, tmdb = None\<rparr>,
      tagline = None, overview = None, released = None, runtime = None, country = None,
      updated_at = None, trailer = None, homepage = None, status = None, language = None,
      available_translations = [], genres = [], certification = None,
      stats = \<lparr>watchers = 0, plays = 0, collectors = 0, comments = 0, lists = 0, votes = 0,
                recommended = 0\<rparr>,
      rating = \<lparr>r_rating = 0, r_votes = 0, r_distribution = []\<rparr>,
      keywords = []\<rparr>"

definition empty_store :: store where
  "empty_store = \<lparr>movies_dir = ''data/movies'', movie_files = [], index_file = None\<rparr>"

text \<open>
  A store whose index holds one movie and the page cursor 3, a limiter whose clock reads
  1000 seconds, and a small catalog server: its popular list has the single movie 42 on page
  1 and nothing on the other pages; the three lookups succeed; the keyword lookup is
  answered with the given status and one keyword in the body.
\<close>

definition store_page3 :: store where
  "store_page3 = save_movies ascii_isalnum (\<lambda>k. ''2024-01-01T00:00:00'') [sample_movie ''Up'' 42] 3 empty_store"

definition sample_limiter :: limiter where
  "sample_limiter = \<lparr>wall_clock = 1000, last_request_time = 0\<rparr>"

definition sample_json :: MovieJson where
  "sample_json =
     \<lparr>j_title = ''Up'', j_year = 2009,
      j_ids = \<lparr>trakt = 42, slug = ''up-2009'', imdb = None, tmdb = Some 5\<rparr>,
      j_tagline = None, j_overview = None, j_released = Some ''2009-05-28'', j_runtime = Some 96,
      j_country = None, j_updated_at = None, j_trailer = None, j_homepage = None,
      j_status = None, j_language = None, j_available_translations = [], j_genres = [],
      j_certification = None\<rparr>"

definition sample_server :: "int \<Rightarrow> nat \<Rightarrow> request \<Rightarrow> response" where
  "sample_server keywords_status n r =
     (case r of
        MoviesPopular page sz yrs \<Rightarrow>
          \<lparr>status_code = 200, body = PopularJson (if page = 1 then [j_ids sample_json] else [])\<rparr>
      | MovieDetails s \<Rightarrow> \<lparr>status_code = 200, body = DetailsJson sample_json\<rparr>
      | MovieStats s \<Rightarrow> \<lparr>status_code = 200, body = StatsJson (stats (sample_movie ''Up'' 42))\<rparr>
      | MovieRatings s \<Rightarrow> \<lparr>status_code = 200, body = RatingsJson (rating (sample_movie ''Up'' 42))\<rparr>
      | TmdbKeywords t \<Rightarrow>
          \<lparr>status_code = keywords_status, body = KeywordsJson [\<lparr>kw_id = 1, kw_name = ''balloon''\<rparr>]\<rparr>)"

definition sample_env :: "int \<Rightarrow> env" where
  "sample_env keywords_status =
     \<lparr>server = sample_server keywords_status, date_ok = (\<lambda>s. True), datetime_ok = (\<lambda>s. True)\<rparr>"

text \<open>
  A static catalog of \<open>cnt\<close> movies with the identifiers 1 to \<open>cnt\<close>, in a fixed order
  of popularity, served in pages as asked: page \<open>p\<close> of page size \<open>s\<close> holds the movies
  \<open>(p - 1) * s + 1\<close> to \<open>p * s\<close>. The slug of movie \<open>i\<close> is \<open>i\<close> letters long. Its movies have
  no TMDB identifier.
\<close>

definition catalog_ids :: "int \<Rightarrow> Ids" where
  "catalog_ids i = \<lparr>trakt = i, slug = replicate (nat i) CHR ''m'', imdb = None, tmdb = None\<rparr>"

definition catalog_server :: "int \<Rightarrow> nat \<Rightarrow> request \<Rightarrow> response" where
  "catalog_server cnt n r =
     (case r of
        MoviesPopular page sz yrs \<Rightarrow>
          \<lparr>status_code = 200,
           body = PopularJson (map catalog_ids
                    (filter (\<lambda>i. i \<le> cnt) [(page - 1) * sz + 1 .. page * sz]))\<rparr>
      | MovieDetails s \<Rightarrow>
          \<lparr>status_code = 200,
           body = DetailsJson (sample_json\<lparr>j_title := s, j_ids := catalog_ids (int (length s))\<rparr>)\<rparr>
      | MovieStats s \<Rightarrow> \<lparr>status_code = 200, body = StatsJson (stats (sample_movie ''Up'' 42))\<rparr>
      | MovieRatings s \<Rightarrow> \<lparr>status_code = 200, body = RatingsJson (rating (sample_movie ''Up'' 42))\<rparr>
      | TmdbKeywords t \<Rightarrow> \<lparr>status_code = 404, body = NoJson\<rparr>)"

definition catalog_env :: "int \<Rightarrow> env" where
  "catalog_env cnt =
     \<lparr>server = catalog_server cnt, date_ok = (\<lambda>s. True), datetime_ok = (\<lambda>s. True)\<rparr>"

text \<open>
  A run of \<open>get_top_movies(limit=2)\<close> on an empty store against the static catalog of 100
  movies, the store after the driver has saved its batches, and the rerun of
  \<open>get_top_movies(limit=2)\<close> on that store.
\<close>

definition first_run :: run where
  "first_run = get_top_movies 5 (catalog_env 100) (TraktService_init empty_store) 2"

definition store_after_first_run :: store where
  "store_after_first_run =
     save_batches ascii_isalnum (\<lambda>j k. ''2024-01-01T00:00:00'') (yields first_run) empty_store"

definition rerun :: run where
  "rerun = get_top_movies 5 (catalog_env 100) (TraktService_init store_after_first_run) 2"

section \<open>Properties\<close>

subsection \<open>File names\<close>

text \<open>
  \<open>str(int)\<close> is injective and never contains an underscore, so the text after the last
  underscore of a file name determines the identifier.
\<close>


lemma of_char_digit_char: "d < 10 \<Longrightarrow> (of_char (digit_char d) :: nat) = 48 + d"
  by (simp add: digit_char_def)

lemma digit_char_inj: "d < 10 \<Longrightarrow> d' < 10 \<Longrightarrow> digit_char d = digit_char d' \<Longrightarrow> d = d'"
proof -
  assume a: "d < 10" "d' < 10" and e: "digit_char d = digit_char d'"
  have "48 + d = (of_char (digit_char d) :: nat)" using a(1) by (simp add: of_char_digit_char)
  also have "\<dots> = of_char (digit_char d')" using e by (rule arg_cong)
  also have "\<dots> = 48 + d'" using a(2) by (simp add: of_char_digit_char)
  finally show ?thesis by simp
qed

lemma digit_char_not_underscore: "d < 10 \<Longrightarrow> digit_char d \<noteq> CHR ''_''"
proof
  assume a: "d < 10" and e: "digit_char d = CHR ''_''"
  have "48 + d = (of_char (digit_char d) :: nat)" using a by (simp add: of_char_digit_char)
  also have "\<dots> = of_char CHR ''_''" using e by (rule arg_cong)
  finally show False using a by simp
qed

lemma str_nat_digits: "c \<in> set (str_nat n) \<Longrightarrow> \<exists>d<10. c = digit_char d"
proof (induction n rule: str_nat.induct)
  case (1 n)
  show ?case
  proof (cases "n < 10")
    case True
    with "1.prems" show ?thesis by (auto simp: str_nat.simps [of n])
  next
    case False
    with "1.prems" have "c \<in> set (str_nat (n div 10)) \<or> c = digit_char (n mod 10)"
      by (auto simp: str_nat.simps [of n])
    with "1.IH" False show ?thesis by (metis mod_less_divisor zero_less_numeral)
  qed
qed

lemma str_nat_not_Nil: "str_nat n \<noteq> []"
  by (simp add: str_nat.simps [of n])

lemma str_nat_inj: "str_nat n = str_nat m \<Longrightarrow> n = m"
proof (induction n arbitrary: m rule: str_nat.induct)
  case (1 n)
  show ?case
  proof (cases "n < 10")
    case n: True
    show ?thesis
    proof (cases "m < 10")
      case True
      with n "1.prems" show ?thesis
        by (simp add: str_nat.simps [of n] str_nat.simps [of m] digit_char_inj)
    next
      case False
      with n "1.prems" have "[digit_char n] = str_nat (m div 10) @ [digit_char (m mod 10)]"
        by (simp add: str_nat.simps [of n] str_nat.simps [of m])
      then show ?thesis using str_nat_not_Nil [of "m div 10"] by simp
    qed
  next
    case n: False
    show ?thesis
    proof (cases "m < 10")
      case True
      with n "1.prems" have "str_nat (n div 10) @ [digit_char (n mod 10)] = [digit_char m]"
        by (simp add: str_nat.simps [of n] str_nat.simps [of m])
      then show ?thesis using str_nat_not_Nil [of "n div 10"] by simp
    next
      case False
      with n "1.prems" have e: "str_nat (n div 10) = str_nat (m div 10)"
        and d: "digit_char (n mod 10) = digit_char (m mod 10)"
        by (simp_all add: str_nat.simps [of n] str_nat.simps [of m])
      from "1.IH" [OF n e] have q: "n div 10 = m div 10" .
      from d have r: "n mod 10 = m mod 10" by (simp add: digit_char_inj)
      from q r show ?thesis by (metis div_mult_mod_eq)
    qed
  qed
qed

lemma minus_not_digit: "d < 10 \<Longrightarrow> digit_char d \<noteq> CHR ''-''"
proof
  assume a: "d < 10" and e: "digit_char d = CHR ''-''"
  have "48 + d = (of_char (digit_char d) :: nat)" using a by (simp add: of_char_digit_char)
  also have "\<dots> = of_char CHR ''-''" using e by (rule arg_cong)
  finally show False using a by simp
qed

lemma str_int_inj: "str_int i = str_int j \<Longrightarrow> i = j"
proof -
  assume e: "str_int i = str_int j"
  have hd_digit: "\<And>n. hd (str_nat n) \<noteq> CHR ''-''"
  proof -
    fix n
    have "hd (str_nat n) \<in> set (str_nat n)" by (simp add: str_nat_not_Nil)
    then obtain d where "d < 10" "hd (str_nat n) = digit_char d" using str_nat_digits by metis
    then show "hd (str_nat n) \<noteq> CHR ''-''" by (simp add: minus_not_digit)
  qed
  show ?thesis
  proof (cases "i < 0")
    case i: True
    show ?thesis
    proof (cases "j < 0")
      case True
      with i e have "str_nat (nat (- i)) = str_nat (nat (- j))" by (simp add: str_int_def)
      then have "nat (- i) = nat (- j)" by (rule str_nat_inj)
      with i True show ?thesis by simp
    next
      case False
      with i e have "CHR ''-'' # str_nat (nat (- i)) = str_nat (nat j)" by (simp add: str_int_def)
      then have "hd (str_nat (nat j)) = CHR ''-''" by (metis list.sel(1))
      with hd_digit show ?thesis by blast
    qed
  next
    case i: False
    show ?thesis
    proof (cases "j < 0")
      case True
      with i e have "str_nat (nat i) = CHR ''-'' # str_nat (nat (- j))" by (simp add: str_int_def)
      then have "hd (str_nat (nat i)) = CHR ''-''" by (metis list.sel(1))
      with hd_digit show ?thesis by blast
    next
      case False
      with i e have "str_nat (nat i) = str_nat (nat j)" by (simp add: str_int_def)
      then have "nat i = nat j" by (rule str_nat_inj)
      with i False show ?thesis by simp
    qed
  qed
qed

lemma underscore_notin_str_int: "CHR ''_'' \<notin> set (str_int i)"
proof -
  have "CHR ''_'' \<notin> set (str_nat n)" for n
  proof
    assume "CHR ''_'' \<in> set (str_nat n)"
    then obtain d where "d < 10" "CHR ''_'' = digit_char d" using str_nat_digits by metis
    then show False using digit_char_not_underscore [of d] by simp
  qed
  then show ?thesis by (simp add: str_int_def)
qed

lemma split_at_last_sep:
  assumes "a @ c # s = b @ c # t" and "c \<notin> set s" and "c \<notin> set t"
  shows "s = t"
proof -
  have tw: "takeWhile (\<lambda>x. x \<noteq> c) (rev u @ c # v) = rev u" if "c \<notin> set u" for u v
  proof -
    have "\<And>x. x \<in> set (rev u) \<Longrightarrow> x \<noteq> c" using that by auto
    then have "takeWhile (\<lambda>x. x \<noteq> c) (rev u @ c # v) = rev u @ takeWhile (\<lambda>x. x \<noteq> c) (c # v)"
      by (rule takeWhile_append2)
    then show ?thesis by simp
  qed
  have "takeWhile (\<lambda>x. x \<noteq> c) (rev (a @ c # s)) = rev s"
    using tw [OF assms(2)] by simp
  moreover have "takeWhile (\<lambda>x. x \<noteq> c) (rev (b @ c # t)) = rev t"
    using tw [OF assms(3)] by simp
  ultimately have "rev s = rev t" using assms(1) by simp
  then show ?thesis by simp
qed

lemma get_filename_inj_id:
  "get_filename isalnum m1 = get_filename isalnum m2 \<Longrightarrow> trakt (ids m1) = trakt (ids m2)"
proof -
  assume e: "get_filename isalnum m1 = get_filename isalnum m2"
  then have "clean_title isalnum (title m1) @ CHR ''_'' # str_int (trakt (ids m1)) =
             clean_title isalnum (title m2) @ CHR ''_'' # str_int (trakt (ids m2))"
    by (simp add: get_filename_def)
  then have "str_int (trakt (ids m1)) = str_int (trakt (ids m2))"
    by (rule split_at_last_sep) (rule underscore_notin_str_int)+
  then show ?thesis by (rule str_int_inj)
qed

text \<open>
  Claim C9. The file name of a movie is a function of its title and its Trakt identifier
  alone, and two movies with distinct identifiers get distinct file names, whatever their
  titles are (also when the cleaned titles are equal, or contain underscores and digits)
  and whatever \<open>str.isalnum\<close> accepts.
\<close>

theorem get_filename_deterministic_injective:
  "(title m1 = title m2 \<and> trakt (ids m1) = trakt (ids m2) \<longrightarrow>
      get_filename isalnum m1 = get_filename isalnum m2) \<and>
   (trakt (ids m1) \<noteq> trakt (ids m2) \<longrightarrow>
      get_filename isalnum m1 \<noteq> get_filename isalnum m2)"
proof (intro conjI impI)
  assume "title m1 = title m2 \<and> trakt (ids m1) = trakt (ids m2)"
  then show "get_filename isalnum m1 = get_filename isalnum m2"
    by (simp add: get_filename_def)
next
  assume "trakt (ids m1) \<noteq> trakt (ids m2)"
  then show "get_filename isalnum m1 \<noteq> get_filename isalnum m2"
    using get_filename_inj_id by blast
qed

theorem get_filename_deterministic_injective_witness:
  "clean_title ascii_isalnum (title (sample_movie ''Up 1'' 2)) =
     clean_title ascii_isalnum (title (sample_movie ''Up_1'' 3)) \<and>
   trakt (ids (sample_movie ''Up 1'' 2)) \<noteq> trakt (ids (sample_movie ''Up_1'' 3)) \<and>
   get_filename ascii_isalnum (sample_movie ''Up 1'' 2) \<noteq>
     get_filename ascii_isalnum (sample_movie ''Up_1'' 3) \<and>
   get_filename ascii_isalnum (sample_movie ''Up 1'' 2) = ''Up_1_2.json'' \<and>
   get_filename ascii_isalnum (sample_movie ''Up_1'' 3) = ''Up_1_3.json''"
proof -
  have ne: "trakt (ids (sample_movie ''Up 1'' 2)) \<noteq> trakt (ids (sample_movie ''Up_1'' 3))"
    by (simp add: sample_movie_def)
  have cl: "clean_title ascii_isalnum (title (sample_movie ''Up 1'' 2)) =
            clean_title ascii_isalnum (title (sample_movie ''Up_1'' 3))"
    by (simp add: sample_movie_def clean_title_def ascii_isalnum_def)
  have n1: "get_filename ascii_isalnum (sample_movie ''Up 1'' 2) = ''Up_1_2.json''"
    by code_simp
  have n2: "get_filename ascii_isalnum (sample_movie ''Up_1'' 3) = ''Up_1_3.json''"
    by code_simp
  from get_filename_deterministic_injective
         [of "sample_movie ''Up 1'' 2" "sample_movie ''Up_1'' 3" ascii_isalnum] ne
  have "get_filename ascii_isalnum (sample_movie ''Up 1'' 2) \<noteq>
        get_filename ascii_isalnum (sample_movie ''Up_1'' 3)" by blast
  with ne cl n1 n2 show ?thesis by blast
qed

subsection \<open>Saving a batch\<close>

text \<open>What \<open>save_movies\<close> writes: nothing for a batch of indexed items, and otherwise the
  files and entries of the new items and the index with the given page.\<close>


lemma save_each_entries:
  "map e_id (snd (save_each isalnum dir now k ms (files, entries))) =
   map e_id entries @ map (\<lambda>m. trakt (ids m)) ms"
  by (induction ms arbitrary: k files entries) (simp_all add: index_entry_def)

lemma save_movies_noop:
  "\<forall>m\<in>set batch. trakt (ids m) \<in> indexed st \<Longrightarrow> save_movies isalnum now batch pg st = st"
  by (simp add: save_movies_def indexed_def Let_def filter_empty_conv)

lemma save_movies_new:
  assumes "\<exists>m\<in>set batch. trakt (ids m) \<notin> indexed st"
  shows "index_file (save_movies isalnum now batch pg st) =
         Some \<lparr>movies = snd (save_each isalnum (movies_dir st) now 0
                               (filter (\<lambda>m. trakt (ids m) \<notin> indexed st) batch)
                               (movie_files st, movies (load_index st))),
               last_updated = Some (now (length (filter (\<lambda>m. trakt (ids m) \<notin> indexed st) batch))),
               last_page = pg,
               fetched_ids = map e_id (snd (save_each isalnum (movies_dir st) now 0
                               (filter (\<lambda>m. trakt (ids m) \<notin> indexed st) batch)
                               (movie_files st, movies (load_index st))))\<rparr>"
    and "movie_files (save_movies isalnum now batch pg st) =
         fst (save_each isalnum (movies_dir st) now 0
                (filter (\<lambda>m. trakt (ids m) \<notin> indexed st) batch)
                (movie_files st, movies (load_index st)))"
proof -
  from assms have ne: "filter (\<lambda>m. trakt (ids m) \<notin> indexed st) batch \<noteq> []"
    by (simp add: filter_empty_conv)
  show "index_file (save_movies isalnum now batch pg st) =
         Some \<lparr>movies = snd (save_each isalnum (movies_dir st) now 0
                               (filter (\<lambda>m. trakt (ids m) \<notin> indexed st) batch)
                               (movie_files st, movies (load_index st))),
               last_updated = Some (now (length (filter (\<lambda>m. trakt (ids m) \<notin> indexed st) batch))),
               last_page = pg,
               fetched_ids = map e_id (snd (save_each isalnum (movies_dir st) now 0
                               (filter (\<lambda>m. trakt (ids m) \<notin> indexed st) batch)
                               (movie_files st, movies (load_index st))))\<rparr>"
    using ne unfolding save_movies_def indexed_def Let_def save_index_def
    by (simp add: case_prod_beta)
  show "movie_files (save_movies isalnum now batch pg st) =
         fst (save_each isalnum (movies_dir st) now 0
                (filter (\<lambda>m. trakt (ids m) \<notin> indexed st) batch)
                (movie_files st, movies (load_index st)))"
    using ne unfolding save_movies_def indexed_def Let_def save_index_def
    by (simp add: case_prod_beta)
qed

lemma get_last_page_save_new:
  "\<exists>m\<in>set batch. trakt (ids m) \<notin> indexed st \<Longrightarrow>
   get_last_page (save_movies isalnum now batch pg st) = pg"
  by (simp add: get_last_page_def load_index_def save_movies_new(1))

text \<open>
  The files that hold a given identifier, under the writes of \<open>save_movies\<close>: a write for
  another identifier goes to another file name and leaves them alone.
\<close>


lemma filter_update_other:
  assumes "\<not> Q (k, v)" and "\<forall>old. (k, old) \<in> set al \<longrightarrow> \<not> Q (k, old)"
  shows "filter Q (AList.update k v al) = filter Q al"
  using assms by (induction al) auto

lemma filter_update_fresh:
  assumes "Q (k, v)" and "filter Q al = []"
  shows "filter Q (AList.update k v al) = [(k, v)]"
  using assms by (induction al) (auto split: if_splits)

lemma files_of_id_write_other:
  assumes "trakt (ids v) \<noteq> i"
    and "\<forall>(name, x)\<in>set files. trakt (ids x) = i \<longrightarrow> name \<noteq> get_filename isalnum v"
  shows "files_of_id i (write_file (get_filename isalnum v) v files) = files_of_id i files"
  unfolding files_of_id_def write_file_def
  by (rule filter_update_other) (use assms in auto)

lemma named_by_id_files_of_id:
  "named_by_id isalnum i files = named_by_id isalnum i (files_of_id i files)"
  by (auto simp: named_by_id_def files_of_id_def)

lemma write_other_keeps:
  assumes "trakt (ids v) \<noteq> i" and "named_by_id isalnum i files"
  shows "files_of_id i (write_file (get_filename isalnum v) v files) = files_of_id i files"
proof (rule files_of_id_write_other [OF assms(1)])
  show "\<forall>(name, x)\<in>set files. trakt (ids x) = i \<longrightarrow> name \<noteq> get_filename isalnum v"
  proof (clarify)
    fix name x
    assume "(get_filename isalnum v, x) \<in> set files" and "i = trakt (ids x)"
    with assms(2) obtain y where "trakt (ids y) = i" "get_filename isalnum v = get_filename isalnum y"
      by (auto simp: named_by_id_def)
    then show False using assms(1) get_filename_inj_id by metis
  qed
qed

lemma save_each_files_other:
  assumes "\<forall>v\<in>set ms. trakt (ids v) \<noteq> i" and "named_by_id isalnum i files"
  shows "files_of_id i (fst (save_each isalnum dir now k ms (files, entries))) = files_of_id i files"
  using assms
proof (induction ms arbitrary: k files entries)
  case Nil
  then show ?case by simp
next
  case (Cons v ms)
  have keep: "files_of_id i (write_file (get_filename isalnum v) v files) = files_of_id i files"
    using Cons.prems by (simp add: write_other_keeps)
  then have "named_by_id isalnum i (write_file (get_filename isalnum v) v files)"
    using Cons.prems(2) named_by_id_files_of_id by metis
  with Cons.IH Cons.prems(1) keep show ?case by simp
qed

lemma write_fresh:
  assumes "trakt (ids m) = i" and "files_of_id i files = []"
  shows "files_of_id i (write_file (get_filename isalnum m) m files) = [(get_filename isalnum m, m)]"
  unfolding files_of_id_def write_file_def
  by (rule filter_update_fresh) (use assms in \<open>auto simp: files_of_id_def\<close>)

lemma save_each_files_once:
  assumes "filter (\<lambda>v. trakt (ids v) = i) ms = [m]" and "files_of_id i files = []"
  shows "files_of_id i (fst (save_each isalnum dir now k ms (files, entries))) =
         [(get_filename isalnum m, m)]"
  using assms
proof (induction ms arbitrary: k files entries)
  case Nil
  then show ?case by simp
next
  case (Cons v ms)
  show ?case
  proof (cases "trakt (ids v) = i")
    case True
    with Cons.prems(1) have vm: "v = m" and rest: "\<forall>x\<in>set ms. trakt (ids x) \<noteq> i"
      by (simp_all add: filter_empty_conv)
    have w: "files_of_id i (write_file (get_filename isalnum m) m files) = [(get_filename isalnum m, m)]"
      using True vm Cons.prems(2) by (simp add: write_fresh)
    have "named_by_id isalnum i [(get_filename isalnum m, m)]"
      using True vm by (auto simp: named_by_id_def)
    then have "named_by_id isalnum i (write_file (get_filename isalnum m) m files)"
      using w named_by_id_files_of_id by metis
    with rest w vm show ?thesis by (simp add: save_each_files_other)
  next
    case False
    have nb: "named_by_id isalnum i files"
      using Cons.prems(2) named_by_id_files_of_id [of isalnum i files] by (simp add: named_by_id_def)
    have keep: "files_of_id i (write_file (get_filename isalnum v) v files) = []"
      using False nb Cons.prems(2) by (simp add: write_other_keeps)
    from False Cons.prems(1) have "filter (\<lambda>v. trakt (ids v) = i) ms = [m]" by simp
    with Cons.IH keep show ?thesis by simp
  qed
qed

lemma entries_of_id_length:
  "length (entries_of_id i entries) = length (filter (\<lambda>j. j = i) (map e_id entries))"
  by (simp add: entries_of_id_def filter_map comp_def)

lemma indexed_after_save:
  assumes "\<exists>m\<in>set batch. trakt (ids m) \<notin> indexed st"
  shows "map e_id (movies (load_index (save_movies isalnum now batch pg st))) =
         map e_id (movies (load_index st)) @
         map (\<lambda>m. trakt (ids m)) (filter (\<lambda>m. trakt (ids m) \<notin> indexed st) batch)"
  using save_movies_new(1) [OF assms, of isalnum now pg]
  by (simp add: load_index_def save_each_entries)

lemma save_movies_keeps_indexed:
  assumes "i \<in> indexed st" and "named_by_id isalnum i (movie_files st)"
  shows "length (entries_of_id i (movies (load_index (save_movies isalnum now batch pg st)))) =
         length (entries_of_id i (movies (load_index st)))"
    and "files_of_id i (movie_files (save_movies isalnum now batch pg st)) =
         files_of_id i (movie_files st)"
proof -
  let ?new = "filter (\<lambda>m. trakt (ids m) \<notin> indexed st) batch"
  have none: "\<forall>v\<in>set ?new. trakt (ids v) \<noteq> i" using assms(1) by auto
  show "length (entries_of_id i (movies (load_index (save_movies isalnum now batch pg st)))) =
         length (entries_of_id i (movies (load_index st)))"
  proof (cases "\<exists>m\<in>set batch. trakt (ids m) \<notin> indexed st")
    case True
    have "filter (\<lambda>j. j = i) (map (\<lambda>m. trakt (ids m)) ?new) = []"
      using none by (simp add: filter_empty_conv)
    then show ?thesis
      by (simp add: entries_of_id_length indexed_after_save [OF True])
  next
    case False
    then show ?thesis by (simp add: save_movies_noop)
  qed
  show "files_of_id i (movie_files (save_movies isalnum now batch pg st)) =
         files_of_id i (movie_files st)"
  proof (cases "\<exists>m\<in>set batch. trakt (ids m) \<notin> indexed st")
    case True
    show ?thesis
      unfolding save_movies_new(2) [OF True]
      by (rule save_each_files_other [OF none assms(2)])
  next
    case False
    then show ?thesis by (simp add: save_movies_noop)
  qed
qed

lemma save_movies_adds_once:
  assumes "i \<notin> indexed st" and "files_of_id i (movie_files st) = []"
    and "filter (\<lambda>v. trakt (ids v) = i) batch = [m]"
  shows "length (entries_of_id i (movies (load_index (save_movies isalnum now batch pg st)))) = 1"
    and "files_of_id i (movie_files (save_movies isalnum now batch pg st)) =
         [(get_filename isalnum m, m)]"
    and "i \<in> indexed (save_movies isalnum now batch pg st)"
proof -
  let ?new = "filter (\<lambda>m. trakt (ids m) \<notin> indexed st) batch"
  have "m \<in> set (filter (\<lambda>v. trakt (ids v) = i) batch)" using assms(3) by simp
  then have m: "m \<in> set batch" "trakt (ids m) = i" by auto
  with assms(1) have ex: "\<exists>m\<in>set batch. trakt (ids m) \<notin> indexed st" by auto
  have "filter (\<lambda>v. trakt (ids v) = i) ?new = filter (\<lambda>v. trakt (ids v) = i) batch"
    using assms(1) by (auto intro: filter_cong)
  then have new: "filter (\<lambda>v. trakt (ids v) = i) ?new = [m]" using assms(3) by simp
  have old: "filter (\<lambda>j. j = i) (map e_id (movies (load_index st))) = []"
    using assms(1) by (auto simp: indexed_def filter_empty_conv)
  have "filter (\<lambda>j. j = i) (map (\<lambda>m. trakt (ids m)) ?new) =
        map (\<lambda>m. trakt (ids m)) (filter (\<lambda>v. trakt (ids v) = i) ?new)"
    by (simp only: filter_map comp_def)
  with new have cnt: "filter (\<lambda>j. j = i) (map (\<lambda>m. trakt (ids m)) ?new) = [i]"
    using m(2) by simp
  show "length (entries_of_id i (movies (load_index (save_movies isalnum now batch pg st)))) = 1"
    by (simp add: entries_of_id_length indexed_after_save [OF ex] old cnt)
  show "files_of_id i (movie_files (save_movies isalnum now batch pg st)) =
         [(get_filename isalnum m, m)]"
    unfolding save_movies_new(2) [OF ex]
    by (rule save_each_files_once [OF new assms(2)])
  show "i \<in> indexed (save_movies isalnum now batch pg st)"
    unfolding indexed_def indexed_after_save [OF ex] using m by (auto simp: assms(1))
qed

text \<open>
  Two calls of \<open>save_movies\<close> in a row. A second call whose items are all indexed leaves the
  store as it is: no file is written, no entry appended, the index is not rewritten. And an
  identifier that the first call stores once (it was neither indexed nor on disk, and the
  first batch carries it once) has exactly one index entry and one file after the second
  call, whatever the second batch holds.
\<close>

lemma save_movies_idempotent:
  assumes "st1 = save_movies isalnum now1 b1 p1 st"
    and "st2 = save_movies isalnum now2 b2 p2 st1"
  shows "((\<forall>x\<in>set b2. trakt (ids x) \<in> indexed st1) \<longrightarrow> st2 = st1) \<and>
         (i \<notin> indexed st \<and> files_of_id i (movie_files st) = [] \<and>
          filter (\<lambda>v. trakt (ids v) = i) b1 = [m] \<longrightarrow>
            length (entries_of_id i (movies (load_index st2))) = 1 \<and>
            files_of_id i (movie_files st2) = [(get_filename isalnum m, m)])"
proof (intro conjI impI)
  assume "\<forall>x\<in>set b2. trakt (ids x) \<in> indexed st1"
  then show "st2 = st1" unfolding assms(2) by (rule save_movies_noop)
next
  assume h: "i \<notin> indexed st \<and> files_of_id i (movie_files st) = [] \<and>
             filter (\<lambda>v. trakt (ids v) = i) b1 = [m]"
  then have a: "i \<notin> indexed st" and b: "files_of_id i (movie_files st) = []"
    and c: "filter (\<lambda>v. trakt (ids v) = i) b1 = [m]" by simp_all
  note first = save_movies_adds_once [OF a b c, of isalnum now1 p1, folded assms(1)]
  have "trakt (ids m) = i"
  proof -
    have "m \<in> set (filter (\<lambda>v. trakt (ids v) = i) b1)" using c by simp
    then show ?thesis by simp
  qed
  then have "named_by_id isalnum i [(get_filename isalnum m, m)]"
    by (auto simp: named_by_id_def)
  then have nb: "named_by_id isalnum i (movie_files st1)"
    using first(2) named_by_id_files_of_id by metis
  note second = save_movies_keeps_indexed [OF first(3) nb, of now2 b2 p2, folded assms(2)]
  show "length (entries_of_id i (movies (load_index st2))) = 1"
    using first(1) second(1) by simp
  show "files_of_id i (movie_files st2) = [(get_filename isalnum m, m)]"
    using first(2) second(2) by simp
qed

subsection \<open>Runs of the generator\<close>


lemma each_get_append:
  "each_get P prev (a @ b) =
   (each_get P prev a \<and> each_get P (if a = [] then prev else Some (last a)) b)"
  by (induction a arbitrary: prev) auto

text \<open>Traces that start with a wait (or are empty) satisfy the check after any event.\<close>

lemma fetch_movie_limited:
  "fetch_movie e n md = (ev, n', r) \<Longrightarrow> each_get trakt_through_limiter prev ev"
  by (auto simp: fetch_movie_def get_movie_details_def get_movie_stats_def get_movie_ratings_def
      fetch_keywords_def get_movie_keywords_def Let_def trakt_through_limiter_def is_trakt_def
      split: sum.splits option.splits prod.splits if_splits)

lemma page_loop_limited:
  "page_loop e fetched limit page pm (ms, tp, n) = (ys, evs, n', r) \<Longrightarrow>
   each_get trakt_through_limiter prev evs"
proof (induction pm arbitrary: ms tp n prev ys evs n' r)
  case Nil
  then show ?case by simp
next
  case (Cons md rest)
  show ?case
  proof (cases "tp \<ge> limit \<or> trakt md \<in> fetched")
    case True
    then show ?thesis using Cons by (auto split: if_splits)
  next
    case False
    obtain ev n1 r1 where f: "fetch_movie e n md = (ev, n1, r1)" by (cases "fetch_movie e n md")
    note ev = fetch_movie_limited [OF f]
    show ?thesis
    proof (cases r1)
      case (Inl err)
      with False f ev Cons.prems show ?thesis by auto
    next
      case (Inr movie_obj)
      with False f ev Cons.prems Cons.IH show ?thesis
        by (auto simp: each_get_append split: prod.splits if_splits)
    qed
  qed
qed

lemma top_loop_limited:
  "each_get trakt_through_limiter prev (events (top_loop fuel e fetched limit (ms, page, tp, n)))"
proof (induction fuel arbitrary: ms page tp n prev)
  case 0
  then show ?case by (simp add: finish_def)
next
  case (Suc fuel)
  have req: "is_trakt (listing_request page limit tp)"
    by (simp add: listing_request_def is_trakt_def)
  show ?case
    using Suc.IH req
    by (auto simp: Let_def finish_def each_get_append trakt_through_limiter_def
        split: option.splits json.splits prod.splits sum.splits
        dest: page_loop_limited [unfolded trakt_through_limiter_def])
qed

text \<open>Page sizes of the listing requests along a trace.\<close>


lemma details_in_append: "details_in (a @ b) = details_in a + details_in b"
  by (induction a rule: details_in.induct) auto

lemma page_sizes_ok_append:
  "page_sizes_ok limit tp (a @ b) =
   (page_sizes_ok limit tp a \<and> page_sizes_ok limit (tp + details_in a) b)"
  by (induction limit tp a rule: page_sizes_ok.induct) (auto simp: add.assoc)

lemma fetch_movie_sizes:
  "fetch_movie e n md = (ev, n', r) \<Longrightarrow> page_sizes_ok limit tp ev \<and> details_in ev = 1"
  by (auto simp: fetch_movie_def get_movie_details_def get_movie_stats_def get_movie_ratings_def
      fetch_keywords_def get_movie_keywords_def Let_def
      split: sum.splits option.splits prod.splits if_splits)

lemma page_loop_sizes:
  "page_loop e fetched limit page pm (ms, tp, n) = (ys, evs, n', r) \<Longrightarrow>
   page_sizes_ok limit tp evs \<and> (\<forall>ms' tp'. r = Inr (ms', tp') \<longrightarrow> tp' = tp + details_in evs)"
proof (induction pm arbitrary: ms tp n ys evs n' r)
  case Nil
  then show ?case by auto
next
  case (Cons md rest)
  show ?case
  proof (cases "tp \<ge> limit \<or> trakt md \<in> fetched")
    case True
    then show ?thesis using Cons by (auto split: if_splits)
  next
    case False
    obtain ev n1 r1 where f: "fetch_movie e n md = (ev, n1, r1)" by (cases "fetch_movie e n md")
    note ev = fetch_movie_sizes [OF f, of limit tp]
    show ?thesis
    proof (cases r1)
      case (Inl err)
      with False f ev Cons.prems show ?thesis by auto
    next
      case (Inr movie_obj)
      show ?thesis
      proof (cases "length (ms @ [movie_obj]) \<ge> BATCH_SIZE")
        case True
        obtain ys2 evs2 n2 r2 where
          rec: "page_loop e fetched limit page rest ([], tp + 1, n1) = (ys2, evs2, n2, r2)"
          by (cases "page_loop e fetched limit page rest ([], tp + 1, n1)")
        note ih = Cons.IH [OF rec]
        from Cons.prems False f Inr True rec
        have "evs = ev @ evs2" "r = r2" by auto
        with ih ev show ?thesis by (auto simp: page_sizes_ok_append details_in_append)
      next
        case b: False
        obtain ys2 evs2 n2 r2 where
          rec: "page_loop e fetched limit page rest (ms @ [movie_obj], tp + 1, n1) = (ys2, evs2, n2, r2)"
          by (cases "page_loop e fetched limit page rest (ms @ [movie_obj], tp + 1, n1)")
        note ih = Cons.IH [OF rec]
        from Cons.prems False f Inr b rec
        have "evs = ev @ evs2" "r = r2" by auto
        with ih ev show ?thesis by (auto simp: page_sizes_ok_append details_in_append)
      qed
    qed
  qed
qed

lemma top_loop_sizes:
  "page_sizes_ok limit tp (events (top_loop fuel e fetched limit (ms, page, tp, n)))"
proof (induction fuel arbitrary: ms page tp n)
  case 0
  then show ?case by (simp add: finish_def)
next
  case (Suc fuel)
  show ?case
  proof (cases "tp < limit")
    case False
    then show ?thesis by (simp add: finish_def)
  next
    case True
    let ?req = "listing_request page limit tp"
    have req: "page_sizes_ok limit tp ([RateLimit, Get ?req] @ es) = page_sizes_ok limit tp es" for es
      using True by (simp add: listing_request_def)
    show ?thesis
    proof (cases "raise_for_status (server e n ?req)")
      case (Some err)
      with True show ?thesis using req [of "[]"] by (simp add: Let_def)
    next
      case None
      show ?thesis
      proof (cases "body (server e n ?req)")
        case (PopularJson page_movies)
        show ?thesis
        proof (cases "page_movies = []")
          case True
          with \<open>tp < limit\<close> None PopularJson show ?thesis
            using req [of "[]"] by (simp add: Let_def finish_def)
        next
          case False
          obtain ys evs n' r where
            pl: "page_loop e fetched limit page page_movies (ms, tp, Suc n) = (ys, evs, n', r)"
            by (cases "page_loop e fetched limit page page_movies (ms, tp, Suc n)")
          note inv = page_loop_sizes [OF pl]
          show ?thesis
          proof (cases r)
            case (Inl err)
            with \<open>tp < limit\<close> None PopularJson False pl inv show ?thesis
              using req [of evs] by (simp add: Let_def)
          next
            case (Inr st)
            obtain ms' tp' where st: "st = (ms', tp')" by (cases st)
            with inv Inr have tp': "tp' = tp + details_in evs" by simp
            have "events (top_loop (Suc fuel) e fetched limit (ms, page, tp, n)) =
                  [RateLimit, Get ?req] @ evs @
                  events (top_loop fuel e fetched limit (ms', page + 1, tp', n'))"
              using \<open>tp < limit\<close> None PopularJson False pl Inr st by (simp add: Let_def)
            then show ?thesis
              using req inv Suc.IH [of tp' ms' "page + 1" n'] tp'
              by (simp add: page_sizes_ok_append del: top_loop.simps)
          qed
        qed
      qed (use True None req [of "[]"] in \<open>simp_all add: Let_def\<close>)
    qed
  qed
qed

text \<open>The batches yielded by the loop over one page.\<close>


lemma yielded_simps [simp]:
  "yielded [] = 0" "yielded ((b, p) # ys) = length b + yielded ys"
  "yielded (xs @ ys) = yielded xs + yielded ys"
  by (simp_all add: yielded_def)




text \<open>The ways one turn of the \<open>while\<close> loop can go.\<close>

lemma top_loop_Suc_cases:
  fixes fuel e fetched limit ms page tp n
  defines "r \<equiv> top_loop (Suc fuel) e fetched limit (ms, page, tp, n)"
  defines "ev \<equiv> [RateLimit, Get (listing_request page limit tp)]"
  obtains
    (stop) "\<not> tp < limit" "r = finish LimitReached ms page"
  | (raised) err where "tp < limit" "r = \<lparr>yields = [], events = ev, result = Raised err\<rparr>"
  | (empty) "tp < limit" "r = (finish EmptyPage ms page)\<lparr>events := ev\<rparr>"
      "body (server e n (listing_request page limit tp)) = PopularJson []"
  | (page_raised) page_movies ys evs n' err where "tp < limit"
      "body (server e n (listing_request page limit tp)) = PopularJson page_movies"
      "page_movies \<noteq> []"
      "page_loop e fetched limit page page_movies (ms, tp, Suc n) = (ys, evs, n', Inl err)"
      "r = \<lparr>yields = ys, events = ev @ evs, result = Raised err\<rparr>"
  | (continue) page_movies ys evs n' ms' tp' r' where "tp < limit"
      "body (server e n (listing_request page limit tp)) = PopularJson page_movies"
      "page_movies \<noteq> []"
      "page_loop e fetched limit page page_movies (ms, tp, Suc n) = (ys, evs, n', Inr (ms', tp'))"
      "r' = top_loop fuel e fetched limit (ms', page + 1, tp', n')"
      "r = r'\<lparr>yields := ys @ yields r', events := ev @ evs @ events r'\<rparr>"
proof (cases "tp < limit")
  case False
  then have "r = finish LimitReached ms page" by (simp add: r_def)
  with False show ?thesis by (rule stop)
next
  case True
  let ?resp = "server e n (listing_request page limit tp)"
  show ?thesis
  proof (cases "raise_for_status ?resp")
    case (Some err)
    with True have "r = \<lparr>yields = [], events = ev, result = Raised err\<rparr>"
      by (simp add: r_def ev_def Let_def)
    with True show ?thesis by (rule raised)
  next
    case None
    show ?thesis
    proof (cases "\<exists>pm. body ?resp = PopularJson pm")
      case False
      with True None have "r = \<lparr>yields = [], events = ev, result = Raised JSONError\<rparr>"
        by (cases "body ?resp") (simp_all add: r_def ev_def Let_def)
      with True show ?thesis by (rule raised)
    next
      case ex: True
      then obtain pm where pm: "body ?resp = PopularJson pm" by blast
      show ?thesis
      proof (cases "pm = []")
        case e: True
        with True None pm have "r = (finish EmptyPage ms page)\<lparr>events := ev\<rparr>"
          by (simp add: r_def ev_def Let_def)
        with True show ?thesis using pm e by (intro empty) simp_all
      next
        case ne: False
        obtain ys evs n' res where
          pl: "page_loop e fetched limit page pm (ms, tp, Suc n) = (ys, evs, n', res)"
          by (cases "page_loop e fetched limit page pm (ms, tp, Suc n)")
        show ?thesis
        proof (cases res)
          case (Inl err)
          with True None pm ne pl
          have "r = \<lparr>yields = ys, events = ev @ evs, result = Raised err\<rparr>"
            by (simp add: r_def ev_def Let_def)
          with True pl Inl pm ne show ?thesis by (intro page_raised [of pm ys evs n' err]) simp_all
        next
          case (Inr s)
          obtain ms' tp' where s: "s = (ms', tp')" by (cases s)
          let ?r' = "top_loop fuel e fetched limit (ms', page + 1, tp', n')"
          from True None pm ne pl Inr s
          have "r = ?r'\<lparr>yields := ys @ yields ?r', events := ev @ evs @ events ?r'\<rparr>"
            by (simp add: r_def ev_def Let_def)
          with True pl Inr s pm ne show ?thesis by (intro continue [of pm ys evs n' ms' tp' ?r']) simp_all
        qed
      qed
    qed
  qed
qed




lemma page_loop_pages:
  "page_loop e fetched limit page pm (ms, tp, n) = (ys, evs, n', r) \<Longrightarrow>
   \<forall>(b, p)\<in>set ys. p = page"
proof (induction pm arbitrary: ms tp n ys evs n' r)
  case Nil
  then show ?case by auto
next
  case (Cons md rest)
  show ?case
  proof (cases "tp \<ge> limit \<or> trakt md \<in> fetched")
    case True
    then show ?thesis using Cons by (auto split: if_splits)
  next
    case False
    obtain ev n1 r1 where f: "fetch_movie e n md = (ev, n1, r1)" by (cases "fetch_movie e n md")
    show ?thesis
    proof (cases r1)
      case (Inl err)
      with False f Cons.prems show ?thesis by auto
    next
      case (Inr movie_obj)
      with False f Cons.prems Cons.IH show ?thesis
        by (auto split: if_splits prod.splits) blast+
    qed
  qed
qed

lemma top_loop_pages:
  "sorted (map snd (yields (top_loop fuel e fetched limit (ms, page, tp, n)))) \<and>
   (\<forall>(b, p)\<in>set (yields (top_loop fuel e fetched limit (ms, page, tp, n))). page \<le> p)"
proof (induction fuel arbitrary: ms page tp n)
  case 0
  then show ?case by (auto simp: finish_def)
next
  case (Suc fuel)
  show ?case
  proof (cases rule: top_loop_Suc_cases [of tp limit fuel e fetched ms page n])
    case stop
    then show ?thesis by (auto simp: finish_def)
  next
    case (raised err)
    then show ?thesis by simp
  next
    case empty
    then show ?thesis by (auto simp: finish_def)
  next
    case (page_raised page_movies ys evs n' err)
    from page_loop_pages [OF page_raised(4)] have "\<forall>(b, p)\<in>set ys. p = page" .
    then have "map snd ys = replicate (length ys) page"
      by (induction ys) auto
    with page_raised(5) \<open>\<forall>(b, p)\<in>set ys. p = page\<close> show ?thesis
      by auto
  next
    case (continue page_movies ys evs n' ms' tp' r')
    from page_loop_pages [OF continue(4)] have pg: "\<forall>(b, p)\<in>set ys. p = page" .
    then have rep: "map snd ys = replicate (length ys) page"
      by (induction ys) auto
    from Suc.IH [of ms' "page + 1" tp' n'] continue(5)
    have s: "sorted (map snd (yields r'))" and ge: "\<forall>(b, p)\<in>set (yields r'). page + 1 \<le> p"
      by auto
    have "sorted (map snd (ys @ yields r'))"
      using s ge by (auto simp: sorted_append rep)
    moreover have "\<forall>(b, p)\<in>set (ys @ yields r'). page \<le> p"
      using pg ge by auto
    ultimately show ?thesis using continue(6) by simp
  qed
qed


lemma top_loop_first:
  "tp < limit \<Longrightarrow>
   \<exists>rest. events (top_loop (Suc fuel) e fetched limit (ms, page, tp, n)) =
           RateLimit # Get (listing_request page limit tp) # rest"
  by (cases rule: top_loop_Suc_cases [of tp limit fuel e fetched ms page n])
     (simp_all add: finish_def)

lemma gets_in_append: "gets_in (a @ b) = gets_in a + gets_in b"
  by (induction a rule: gets_in.induct) auto

lemma keywords_fatal_clean:
  "keywords_fatal e n a OutOfFuel \<Longrightarrow> keywords_fatal e n a res"
  by (induction e n a res rule: keywords_fatal.induct) (auto split: request.splits)

lemma keywords_fatal_append:
  "keywords_fatal e n a OutOfFuel \<Longrightarrow> keywords_fatal e (n + gets_in a) b res \<Longrightarrow>
   keywords_fatal e n (a @ b) res"
  by (induction e n a res rule: keywords_fatal.induct) (auto split: request.splits)

lemma fetch_movie_fatal:
  "fetch_movie e n md = (ev, n', r) \<Longrightarrow>
   n' = n + gets_in ev \<and>
   (case r of Inl err \<Rightarrow> keywords_fatal e n ev (Raised err)
            | Inr m \<Rightarrow> keywords_fatal e n ev OutOfFuel)"
  by (auto simp: fetch_movie_def get_movie_details_def get_movie_stats_def get_movie_ratings_def
      fetch_keywords_def get_movie_keywords_def Let_def raise_for_status_def fatal_status_def
      split: sum.splits option.splits prod.splits if_splits)

lemma page_loop_fatal:
  "page_loop e fetched limit page pm (ms, tp, n) = (ys, evs, n', r) \<Longrightarrow>
   n' = n + gets_in evs \<and>
   (case r of Inl err \<Rightarrow> keywords_fatal e n evs (Raised err)
            | Inr s \<Rightarrow> keywords_fatal e n evs OutOfFuel)"
proof (induction pm arbitrary: ms tp n ys evs n' r)
  case Nil
  then show ?case by auto
next
  case (Cons md rest)
  show ?case
  proof (cases "tp \<ge> limit \<or> trakt md \<in> fetched")
    case True
    then show ?thesis using Cons by (auto split: if_splits)
  next
    case False
    obtain ev n1 r1 where f: "fetch_movie e n md = (ev, n1, r1)" by (cases "fetch_movie e n md")
    note fm = fetch_movie_fatal [OF f]
    show ?thesis
    proof (cases r1)
      case (Inl err)
      with False f fm Cons.prems show ?thesis by auto
    next
      case (Inr movie_obj)
      obtain ms1 where ms1: "ms1 = (if length (ms @ [movie_obj]) \<ge> BATCH_SIZE then [] else ms @ [movie_obj])"
        by simp
      obtain ys2 evs2 n2 r2 where
        rec: "page_loop e fetched limit page rest (ms1, tp + 1, n1) = (ys2, evs2, n2, r2)"
        by (cases "page_loop e fetched limit page rest (ms1, tp + 1, n1)")
      note ih = Cons.IH [OF rec]
      from Cons.prems False f Inr rec ms1
      have eq: "evs = ev @ evs2" "r = r2" "n' = n2" by (auto split: if_splits)
      from fm Inr have c: "keywords_fatal e n ev OutOfFuel" and n1: "n1 = n + gets_in ev" by simp_all
      show ?thesis
      proof (cases r2)
        case (Inl err)
        with ih have "keywords_fatal e (n + gets_in ev) evs2 (Raised err)" using n1 by simp
        with c have "keywords_fatal e n (ev @ evs2) (Raised err)" by (rule keywords_fatal_append)
        with eq Inl ih n1 show ?thesis by (simp add: gets_in_append)
      next
        case (Inr s)
        with ih have "keywords_fatal e (n + gets_in ev) evs2 OutOfFuel" using n1 by simp
        with c have "keywords_fatal e n (ev @ evs2) OutOfFuel" by (rule keywords_fatal_append)
        with eq Inr ih n1 show ?thesis by (simp add: gets_in_append)
      qed
    qed
  qed
qed

lemma top_loop_fatal:
  "keywords_fatal e n (events (top_loop fuel e fetched limit (ms, page, tp, n)))
     (result (top_loop fuel e fetched limit (ms, page, tp, n)))"
proof (induction fuel arbitrary: ms page tp n)
  case 0
  then show ?case by (simp add: finish_def)
next
  case (Suc fuel)
  show ?case
  proof (cases rule: top_loop_Suc_cases [of tp limit fuel e fetched ms page n])
    case stop
    then show ?thesis by (simp add: finish_def)
  next
    case (raised err)
    show ?thesis unfolding raised(2) by (simp add: listing_request_def)
  next
    case empty
    show ?thesis unfolding empty(2) by (simp add: finish_def listing_request_def)
  next
    case (page_raised page_movies ys evs n' err)
    from page_loop_fatal [OF page_raised(4)] have "keywords_fatal e (Suc n) evs (Raised err)" by simp
    then show ?thesis unfolding page_raised(5) by (simp add: listing_request_def)
  next
    case (continue page_movies ys evs n' ms' tp' r')
    from page_loop_fatal [OF continue(4)]
    have c: "keywords_fatal e (Suc n) evs OutOfFuel" and n': "n' = Suc n + gets_in evs" by simp_all
    from Suc.IH [of n' ms' "page + 1" tp'] continue(5) n'
    have "keywords_fatal e (Suc n + gets_in evs) (events r') (result r')" by simp
    with c have "keywords_fatal e (Suc n) (evs @ events r') (result r')"
      by (rule keywords_fatal_append)
    then show ?thesis unfolding continue(6) by (simp add: listing_request_def)
  qed
qed

text \<open>The cursor along the saves of a run; one call of the limiter; the keywords of a
  movie whose lookup was answered with 404.\<close>


lemma get_last_page_save_cases:
  "get_last_page (save_movies isalnum now batch pg st) = pg \<or>
   get_last_page (save_movies isalnum now batch pg st) = get_last_page st"
proof (cases "\<exists>m\<in>set batch. trakt (ids m) \<notin> indexed st")
  case True
  then show ?thesis by (simp add: get_last_page_save_new)
next
  case False
  then show ?thesis by (simp add: save_movies_noop)
qed

lemma run_stores_head: "\<exists>tl. run_stores isalnum clock ys st = st # tl"
  by (cases ys) auto

lemma run_stores_sorted:
  "sorted (map snd ys) \<Longrightarrow> \<forall>(b, p)\<in>set ys. get_last_page st \<le> p \<Longrightarrow>
   sorted (map get_last_page (run_stores isalnum clock ys st))"
proof (induction ys arbitrary: st clock)
  case Nil
  then show ?case by simp
next
  case (Cons y rest)
  obtain b p where y: "y = (b, p)" by (cases y)
  let ?st' = "save_movies isalnum (clock 0) b p st"
  from Cons.prems y have lp: "get_last_page st \<le> p" and srt: "sorted (map snd rest)"
    and later: "\<forall>(c, q)\<in>set rest. p \<le> q" and old: "\<forall>(c, q)\<in>set rest. get_last_page st \<le> q"
    by auto
  from get_last_page_save_cases [of isalnum "clock 0" b p st] lp
  have up: "get_last_page st \<le> get_last_page ?st'" by auto
  have "\<forall>(c, q)\<in>set rest. get_last_page ?st' \<le> q"
    using get_last_page_save_cases [of isalnum "clock 0" b p st] later old by auto
  from Cons.IH [OF srt this]
  have tl: "sorted (map get_last_page (run_stores isalnum (\<lambda>j. clock (Suc j)) rest ?st'))" .
  obtain tl where hd: "run_stores isalnum (\<lambda>j. clock (Suc j)) rest ?st' = ?st' # tl"
    using run_stores_head by blast
  from tl hd up have "\<forall>x\<in>set (map get_last_page (run_stores isalnum (\<lambda>j. clock (Suc j)) rest ?st')).
          get_last_page st \<le> x" by auto
  with tl y show ?case by simp
qed

subsection \<open>Rounding to a float\<close>

lemma round_half_even_error: "\<bar>of_int (round_half_even y) - y\<bar> \<le> 1 / 2"
proof -
  have "of_int \<lfloor>y\<rfloor> \<le> y" "y < of_int \<lfloor>y\<rfloor> + 1" by linarith+
  then show ?thesis
    by (auto simp: round_half_even_def Let_def)
qed

lemma quotient_of_pos:
  assumes "0 < x" and "quotient_of x = (a, b)"
  shows "0 < a" "0 < b" "x = of_int a / of_int b"
proof -
  from assms(2) show b: "0 < b" by (rule quotient_of_denom_pos)
  from assms(2) show x: "x = of_int a / of_int b" by (simp add: quotient_of_div)
  from assms(1) x b show "0 < a" by (simp add: zero_less_divide_iff)
qed

lemma exponent2_bounds:
  assumes "0 < x"
  shows "2 powi exponent2 x \<le> x \<and> x < 2 powi (exponent2 x + 1)"
proof -
  obtain a b where q: "quotient_of x = (a, b)" by (cases "quotient_of x")
  note ab = quotient_of_pos [OF assms q]
  let ?d = "bitlen a - bitlen b"
  from bitlen_bounds [OF ab(1)] have a: "2 ^ nat (bitlen a - 1) \<le> a" "a < 2 ^ nat (bitlen a)" by auto
  from bitlen_bounds [OF ab(2)] have b: "2 ^ nat (bitlen b - 1) \<le> b" "b < 2 ^ nat (bitlen b)" by auto
  from ab(1) have la: "1 \<le> bitlen a" by (simp add: bitlen_alt_def)
  from ab(2) have lb: "1 \<le> bitlen b" by (simp add: bitlen_alt_def)
  have pa: "(2::rat) ^ nat (bitlen a - 1) = 2 powi (bitlen a - 1)" "(2::rat) ^ nat (bitlen a) = 2 powi bitlen a"
    using la by (simp_all add: power_int_def)
  have pb: "(2::rat) ^ nat (bitlen b - 1) = 2 powi (bitlen b - 1)" "(2::rat) ^ nat (bitlen b) = 2 powi bitlen b"
    using lb by (simp_all add: power_int_def)
  have ra: "(2::rat) powi (bitlen a - 1) \<le> of_int a" "of_int a < (2::rat) powi bitlen a"
  proof -
    from a(1) have "(of_int (2 ^ nat (bitlen a - 1)) :: rat) \<le> of_int a" by (simp only: of_int_le_iff)
    then show "(2::rat) powi (bitlen a - 1) \<le> of_int a" by (simp add: pa)
    from a(2) have "(of_int a :: rat) < of_int (2 ^ nat (bitlen a))" by (simp only: of_int_less_iff)
    then show "of_int a < (2::rat) powi bitlen a" by (simp add: pa)
  qed
  have rb: "(2::rat) powi (bitlen b - 1) \<le> of_int b" "of_int b < (2::rat) powi bitlen b"
  proof -
    from b(1) have "(of_int (2 ^ nat (bitlen b - 1)) :: rat) \<le> of_int b" by (simp only: of_int_le_iff)
    then show "(2::rat) powi (bitlen b - 1) \<le> of_int b" by (simp add: pb)
    from b(2) have "(of_int b :: rat) < of_int (2 ^ nat (bitlen b))" by (simp only: of_int_less_iff)
    then show "of_int b < (2::rat) powi bitlen b" by (simp add: pb)
  qed
  have bpos: "(0::rat) < of_int b" using ab(2) by simp
  have lower: "(2::rat) powi (?d - 1) \<le> x"
  proof -
    have "(2::rat) powi (?d - 1) = 2 powi (bitlen a - 1) / 2 powi bitlen b"
      by (simp add: power_int_diff)
    also have "\<dots> \<le> of_int a / 2 powi bitlen b"
      using ra(1) by (simp add: divide_right_mono)
    also have "\<dots> \<le> of_int a / of_int b"
      using rb(2) ab(1) bpos by (simp add: frac_le)
    finally show ?thesis using ab(3) by simp
  qed
  have upper: "x < (2::rat) powi (?d + 1)"
  proof -
    have "(of_int a :: rat) / of_int b < 2 powi bitlen a / of_int b"
      using ra(2) bpos by (simp add: divide_strict_right_mono)
    also have "\<dots> \<le> 2 powi bitlen a / 2 powi (bitlen b - 1)"
      using rb(1) by (simp add: frac_le)
    also have "\<dots> = 2 powi (?d + 1)"
      by (simp add: power_int_diff power_int_add)
    finally show ?thesis using ab(3) by simp
  qed
  show ?thesis
  proof (cases "2 powi ?d \<le> x")
    case True
    with q have "exponent2 x = ?d" by (simp add: exponent2_def)
    with True upper show ?thesis by simp
  next
    case False
    with q have "exponent2 x = ?d - 1" by (simp add: exponent2_def)
    with False lower show ?thesis by simp
  qed
qed

lemma round_double_error: "\<bar>round_double x - x\<bar> \<le> \<bar>x\<bar> / 2 ^ 53"
proof (cases "x = 0")
  case True
  then show ?thesis by (simp add: round_double_def)
next
  case False
  define e where "e = exponent2 \<bar>x\<bar>"
  define q :: rat where "q = 2 powi (e - 52)"
  have qpos: "0 < q" by (simp add: q_def)
  from False have "0 < \<bar>x\<bar>" by simp
  from exponent2_bounds [OF this] have le: "2 powi e \<le> \<bar>x\<bar>" by (simp add: e_def)
  from False have rd: "round_double x = of_int (round_half_even (x / q)) * q"
    by (simp add: round_double_def q_def e_def Let_def)
  have "round_double x - x = (of_int (round_half_even (x / q)) - x / q) * q"
    using qpos by (simp add: rd algebra_simps)
  then have "\<bar>round_double x - x\<bar> = \<bar>of_int (round_half_even (x / q)) - x / q\<bar> * q"
    using qpos by (simp add: abs_mult)
  also have "\<dots> \<le> 1 / 2 * q"
    using round_half_even_error [of "x / q"] qpos by (simp add: mult_right_mono)
  also have "\<dots> = 2 powi e / 2 ^ 53"
    by (simp add: q_def power_int_diff)
  also have "\<dots> \<le> \<bar>x\<bar> / 2 ^ 53"
    using le by (simp add: divide_right_mono)
  finally show ?thesis .
qed

text \<open>Some values of the rounding, among them the two ties around \<open>2 ^ 53\<close>; they
  are the values of Python's \<open>float\<close> at these arguments.\<close>

lemma round_double_examples:
  "round_double (1 / 3) = 6004799503160661 / 18014398509481984"
  "round_double (- 1 / 3) = - 6004799503160661 / 18014398509481984"
  "round_double (1 / 10) = 3602879701896397 / 36028797018963968"
  "round_double (10001 / 10) = 8796972631510221 / 8796093022208"
  "round_double 9007199254740993 = 9007199254740992"
  "round_double 9007199254740995 = 9007199254740996"
  "round_double 1000 = 1000"
  "round_double (3 / 4) = 3 / 4"
  by code_simp+

lemma REQUEST_DELAY_value: "REQUEST_DELAY = 5404319552844595 / 18014398509481984"
  by code_simp

subsection \<open>One call of the limiter\<close>

lemma round_double_bounds:
  "x - \<bar>x\<bar> / 9007199254740992 \<le> round_double x" "round_double x \<le> x + \<bar>x\<bar> / 9007199254740992"
proof -
  from round_double_error [of x] have "\<bar>round_double x - x\<bar> \<le> \<bar>x\<bar> / 9007199254740992" by simp
  then show "x - \<bar>x\<bar> / 9007199254740992 \<le> round_double x"
    "round_double x \<le> x + \<bar>x\<bar> / 9007199254740992" by linarith+
qed

lemma round_double_nonneg: "0 \<le> x \<Longrightarrow> 0 \<le> round_double x"
  using round_double_bounds(1) [of x] by simp

lemma REQUEST_DELAY_bounds:
  "3 / 10 - 3 / 10 / 9007199254740992 \<le> REQUEST_DELAY" "REQUEST_DELAY \<le> 3 / 10"
proof -
  from REQUEST_DELAY_value show "3 / 10 - 3 / 10 / 9007199254740992 \<le> REQUEST_DELAY" "REQUEST_DELAY \<le> 3 / 10"
    by simp_all
qed

lemma respect_rate_limit_clock:
  assumes T: "0 \<le> wall_clock w" and o: "0 \<le> overshoot" and l: "0 \<le> lag"
  shows "wall_clock w \<le> wall_clock (respect_rate_limit overshoot lag w)"
    and "0 \<le> last_request_time (respect_rate_limit overshoot lag w)"
proof -
  define t where "t = round_double (round_double (wall_clock w) - last_request_time w)"
  define s where "s = round_double (REQUEST_DELAY - t)"
  define T2 where
    "T2 = (if t < REQUEST_DELAY then wall_clock w + s + overshoot + lag else wall_clock w + lag)"
  have w': "last_request_time (respect_rate_limit overshoot lag w) = round_double T2"
    "wall_clock (respect_rate_limit overshoot lag w) = T2"
    by (simp_all add: respect_rate_limit_def time_time_def time_sleep_def Let_def
        T2_def s_def t_def)
  have s0: "t < REQUEST_DELAY \<Longrightarrow> 0 \<le> s"
    using round_double_nonneg [of "REQUEST_DELAY - t"] by (simp add: s_def)
  have T2: "wall_clock w \<le> T2" using s0 o l by (simp add: T2_def)
  with w' show "wall_clock w \<le> wall_clock (respect_rate_limit overshoot lag w)" by simp
  from T2 T have "0 \<le> T2" by simp
  from round_double_nonneg [OF this] w'
  show "0 \<le> last_request_time (respect_rate_limit overshoot lag w)" by simp
qed

lemma respect_rate_limit_gap:
  assumes T: "0 \<le> wall_clock w" and L: "0 \<le> last_request_time w"
    and o: "0 \<le> overshoot" and l: "0 \<le> lag"
  shows "WINDOW_SIZE / MAX_REQUESTS -
           rounding_slack (last_request_time w) (last_request_time (respect_rate_limit overshoot lag w))
         \<le> last_request_time (respect_rate_limit overshoot lag w) - last_request_time w"
    and "wall_clock w \<le> wall_clock (respect_rate_limit overshoot lag w)"
    and "0 \<le> last_request_time (respect_rate_limit overshoot lag w)"
proof -
  define T0 where "T0 = wall_clock w"
  define L0 where "L0 = last_request_time w"
  define c where "c = round_double T0"
  define t where "t = round_double (c - L0)"
  define s where "s = round_double (REQUEST_DELAY - t)"
  define T2 where "T2 = (if t < REQUEST_DELAY then T0 + s + overshoot + lag else T0 + lag)"
  define L1 where "L1 = round_double T2"
  have w': "last_request_time (respect_rate_limit overshoot lag w) = L1"
    "wall_clock (respect_rate_limit overshoot lag w) = T2"
    by (simp_all add: respect_rate_limit_def time_time_def time_sleep_def Let_def
        L1_def T2_def s_def t_def c_def T0_def L0_def)
  note D = REQUEST_DELAY_bounds
  have T0: "0 \<le> T0" and L0: "0 \<le> L0" using T L by (simp_all add: T0_def L0_def)
  have c: "T0 - T0 / 9007199254740992 \<le> c" "c \<le> T0 + T0 / 9007199254740992"
    using round_double_bounds [of T0] T0 by (simp_all add: c_def)
  have t: "c - L0 - \<bar>c - L0\<bar> / 9007199254740992 \<le> t" "t \<le> c - L0 + \<bar>c - L0\<bar> / 9007199254740992"
    using round_double_bounds [of "c - L0"] by (simp_all add: t_def)
  have s: "t < REQUEST_DELAY \<Longrightarrow>
           REQUEST_DELAY - t - (REQUEST_DELAY / 9007199254740992 - t / 9007199254740992) \<le> s"
    using round_double_bounds(1) [of "REQUEST_DELAY - t"] by (simp add: s_def diff_divide_distrib)
  have s0: "t < REQUEST_DELAY \<Longrightarrow> 0 \<le> s"
    using round_double_nonneg [of "REQUEST_DELAY - t"] by (simp add: s_def)
  have T2: "T0 \<le> T2" using s0 o l by (simp add: T2_def)
  then have T2nn: "0 \<le> T2" using T0 by simp
  have L1: "T2 - T2 / 9007199254740992 \<le> L1" "L1 \<le> T2 + T2 / 9007199254740992"
    using round_double_bounds [of T2] T2nn by (simp_all add: L1_def)
  from T2 w' T0_def show "wall_clock w \<le> wall_clock (respect_rate_limit overshoot lag w)" by simp
  from L1(1) T2nn have L1nn: "0 \<le> L1" by simp
  with w' show "0 \<le> last_request_time (respect_rate_limit overshoot lag w)" by simp
  have T2L: "T2 \<le> 2 * L1" using L1(1) T2nn by linarith
  have T0L: "T0 \<le> 2 * L1" using T2 T2L by linarith
  have L1T: "T2 - 2 * L1 / 9007199254740992 \<le> L1" using L1(1) T2L by linarith
  have cT: "c \<le> 2 * T0" using c(2) T0 by linarith
  have "3 / 10 - (L0 / 1125899906842624 + L1 / 1125899906842624 + 1 / 1125899906842624) \<le> L1 - L0"
  proof (cases "t < REQUEST_DELAY")
    case True
    then have T2': "T0 + s \<le> T2" using o l by (simp add: T2_def)
    note s' = s [OF True]
    show ?thesis
    proof (cases "L0 \<le> c")
      case True
      with t have t': "t \<le> c - L0 + (c / 9007199254740992 - L0 / 9007199254740992)"
        "c - L0 - (c / 9007199254740992 - L0 / 9007199254740992) \<le> t"
        by (simp_all add: diff_divide_distrib)
      from t'(2) True have tnn: "0 \<le> t" by linarith
      from t'(1) cT L0 have t2: "t \<le> c - L0 + 2 * T0 / 9007199254740992" by linarith
      from s' tnn D(2) have s2: "REQUEST_DELAY - t - (3 / 10) / 9007199254740992 \<le> s" by linarith
      from s2 t2 c(2) have
        "REQUEST_DELAY + L0 - 3 * T0 / 9007199254740992 - (3 / 10) / 9007199254740992 \<le> T0 + s"
        by linarith
      with T2' L1T have
        "REQUEST_DELAY - 3 * T0 / 9007199254740992 - (3 / 10) / 9007199254740992
           - 2 * L1 / 9007199254740992 \<le> L1 - L0"
        by linarith
      with T0L D(1) L0 show ?thesis by linarith
    next
      case False
      with t have t': "t \<le> c - L0 + (L0 / 9007199254740992 - c / 9007199254740992)"
        "c - L0 - (L0 / 9007199254740992 - c / 9007199254740992) \<le> t"
        by (simp_all add: diff_divide_distrib)
      from c(1) T0 have cnn: "0 \<le> c" by linarith
      from t'(1) cnn have t2: "t \<le> c - L0 + L0 / 9007199254740992" by linarith
      from t'(2) cnn L0 D(2) have Dt: "REQUEST_DELAY - t \<le> 3 / 10 + 2 * L0" by linarith
      from s' Dt have s2:
        "REQUEST_DELAY - t - (3 / 10) / 9007199254740992 - 2 * L0 / 9007199254740992 \<le> s"
        by linarith
      from s2 t2 c(2) have
        "REQUEST_DELAY + L0 - T0 / 9007199254740992 - 3 * L0 / 9007199254740992
           - (3 / 10) / 9007199254740992 \<le> T0 + s"
        by linarith
      with T2' L1T have
        "REQUEST_DELAY - T0 / 9007199254740992 - 3 * L0 / 9007199254740992
           - (3 / 10) / 9007199254740992 - 2 * L1 / 9007199254740992 \<le> L1 - L0"
        by linarith
      with T0L D(1) L0 L1nn show ?thesis by linarith
    qed
  next
    case False
    then have Dt: "REQUEST_DELAY \<le> t" by simp
    from D(1) have Dpos: "0 < REQUEST_DELAY" by linarith
    show ?thesis
    proof (cases "L0 \<le> c")
      case True
      with t have t': "t \<le> c - L0 + (c / 9007199254740992 - L0 / 9007199254740992)"
        by (simp add: diff_divide_distrib)
      from t' cT L0 have t2: "t \<le> c - L0 + 2 * T0 / 9007199254740992" by linarith
      from Dt t2 c(2) have "REQUEST_DELAY - 3 * T0 / 9007199254740992 \<le> T0 - L0" by linarith
      with T2 L1T have
        "REQUEST_DELAY - 3 * T0 / 9007199254740992 - 2 * L1 / 9007199254740992 \<le> L1 - L0"
        by linarith
      with T0L D(1) L0 L1nn show ?thesis by linarith
    next
      case False
      with t have t': "t \<le> c - L0 + (L0 / 9007199254740992 - c / 9007199254740992)"
        by (simp add: diff_divide_distrib)
      from t' False have "t \<le> 0" by linarith
      with Dt Dpos show ?thesis by linarith
    qed
  qed
  then show "WINDOW_SIZE / MAX_REQUESTS -
           rounding_slack (last_request_time w) (last_request_time (respect_rate_limit overshoot lag w))
         \<le> last_request_time (respect_rate_limit overshoot lag w) - last_request_time w"
    by (simp add: w' L0_def WINDOW_SIZE_def MAX_REQUESTS_def rounding_slack_def add_divide_distrib)
qed

lemma limiter_calls_gaps:
  "0 \<le> wall_clock w \<Longrightarrow> 0 \<le> last_request_time w \<Longrightarrow>
   \<forall>(work, overshoot, lag)\<in>set calls. 0 \<le> work \<and> 0 \<le> overshoot \<and> 0 \<le> lag \<Longrightarrow>
   successively (\<lambda>a b. WINDOW_SIZE / MAX_REQUESTS - rounding_slack a b \<le> b - a)
     (last_request_time w # limiter_calls calls w)"
proof (induction calls arbitrary: w)
  case Nil
  then show ?case by simp
next
  case (Cons c calls)
  obtain work overshoot lag where c: "c = (work, overshoot, lag)" by (cases c)
  let ?w0 = "w\<lparr>wall_clock := wall_clock w + work\<rparr>"
  let ?w' = "respect_rate_limit overshoot lag ?w0"
  from Cons.prems(3) c have nn: "0 \<le> work" "0 \<le> overshoot" "0 \<le> lag" by auto
  from Cons.prems(1) nn(1) have T: "0 \<le> wall_clock ?w0" by simp
  from Cons.prems(2) have L: "0 \<le> last_request_time ?w0" by simp
  note step = respect_rate_limit_gap [OF T L nn(2) nn(3)]
  from step(1) have gap:
    "WINDOW_SIZE / MAX_REQUESTS - rounding_slack (last_request_time w) (last_request_time ?w')
     \<le> last_request_time ?w' - last_request_time w"
    by simp
  from step(2) T have T': "0 \<le> wall_clock ?w'" by linarith
  from Cons.prems(3) have
    "\<forall>(work, overshoot, lag)\<in>set calls. 0 \<le> work \<and> 0 \<le> overshoot \<and> 0 \<le> lag" by simp
  from Cons.IH [OF T' step(3) this] gap c show ?case by (simp add: Let_def)
qed

lemma fetch_movie_404:
  "fetch_movie e n md = (ev, n', Inr m) \<Longrightarrow> tmdb (ids m) = Some t \<Longrightarrow> t \<noteq> 0 \<Longrightarrow>
   status_code (server e (n + 3) (TmdbKeywords t)) = 404 \<Longrightarrow> keywords m = []"
  by (auto simp: fetch_movie_def get_movie_details_def get_movie_stats_def get_movie_ratings_def
      fetch_keywords_def get_movie_keywords_def Let_def make_movie_def eval_nat_numeral
      split: sum.splits option.splits prod.splits if_splits)



lemma save_batches_last:
  "save_batches isalnum clock ys st = last (run_stores isalnum clock ys st)"
proof (induction ys arbitrary: st clock)
  case Nil
  then show ?case by simp
next
  case (Cons y rest)
  obtain b p where y: "y = (b, p)" by (cases y)
  obtain tl where
    "run_stores isalnum (\<lambda>j. clock (Suc j)) rest (save_movies isalnum (clock 0) b p st) =
     save_movies isalnum (clock 0) b p st # tl"
    using run_stores_head by blast
  with Cons.IH [of "\<lambda>j. clock (Suc j)" "save_movies isalnum (clock 0) b p st"] y
  show ?case by simp
qed

subsection \<open>Resumption\<close>

text \<open>
  The first listing request of a run that requests anything is for the page after the
  cursor of the store: \<open>__init__\<close> sets \<open>start_page = get_last_page() + 1\<close>.
\<close>

lemma resume_page_after_cursor:
  "0 < limit \<Longrightarrow>
   first_listing_page (events (get_top_movies (Suc fuel) e (TraktService_init st) limit)) =
   Some (get_last_page st + 1)"
proof -
  assume "0 < limit"
  from top_loop_first [OF this, of fuel e "get_fetched_ids st" "[]" "get_last_page st + 1" 0]
  show ?thesis
    by (auto simp: get_top_movies_def TraktService_init_def listing_request_def
        simp del: top_loop.simps)
qed

text \<open>
  Claim C1. On a rerun the fetch sequence should start at the page cursor persisted by
  the store, so that the run resumes exactly at the last completed batch. It does not:
  the cursor is not the last page fetched, and the rerun skips a page that was never
  requested. \<open>get_top_movies\<close> yields its last batch after \<open>page += 1\<close>, the driver persists
  that page number, and \<open>__init__\<close> adds 1 again. Against the static catalog, a run with
  limit 2 on an empty store requests page 1 only (movies 1 and 2) and the store keeps the
  cursor 2; the rerun with limit 2 requests page 3 only and yields the movies 5 and 6.
  Page 2, the movies 3 and 4, is requested by neither run.
\<close>

theorem rerun_skips_page:
  "listing_pages (events first_run) = [1] \<and>
   map (\<lambda>(b, p). (map (\<lambda>m. trakt (ids m)) b, p)) (yields first_run) = [([1, 2], 2)] \<and>
   result first_run = Finished LimitReached \<and>
   get_last_page store_after_first_run = 2 \<and>
   get_fetched_ids store_after_first_run = {1, 2} \<and>
   listing_pages (events rerun) = [3] \<and>
   map (\<lambda>(b, p). (map (\<lambda>m. trakt (ids m)) b, p)) (yields rerun) = [([5, 6], 4)] \<and>
   result rerun = Finished LimitReached"
  by code_simp

subsection \<open>The page cursor\<close>

text \<open>
  Claim C2, as amended. After \<open>save_movies(items, page)\<close> with at least one item that is not
  indexed yet, \<open>get_last_page()\<close> returns \<open>page\<close>. When every item of the batch is already
  indexed (or the batch is empty), the call returns before the index is rewritten and the
  store, with its cursor, stays as it was. Across a run of the driver the successive
  persisted page values are non-decreasing.
\<close>

theorem cursor_after_save:
  "((\<exists>m\<in>set batch. trakt (ids m) \<notin> indexed st) \<longrightarrow>
      get_last_page (save_movies isalnum now batch pg st) = pg) \<and>
   ((\<forall>m\<in>set batch. trakt (ids m) \<in> indexed st) \<longrightarrow>
      save_movies isalnum now batch pg st = st) \<and>
   sorted (map get_last_page
     (run_stores isalnum clock (yields (get_top_movies fuel e (TraktService_init st) limit)) st))"
proof (intro conjI impI)
  assume "\<exists>m\<in>set batch. trakt (ids m) \<notin> indexed st"
  then show "get_last_page (save_movies isalnum now batch pg st) = pg"
    by (rule get_last_page_save_new)
next
  assume "\<forall>m\<in>set batch. trakt (ids m) \<in> indexed st"
  then show "save_movies isalnum now batch pg st = st" by (rule save_movies_noop)
next
  let ?ys = "yields (get_top_movies fuel e (TraktService_init st) limit)"
  from top_loop_pages [of fuel e "get_fetched_ids st" limit "[]" "get_last_page st + 1" 0 0]
  have s: "sorted (map snd ?ys)" and ge: "\<forall>(b, p)\<in>set ?ys. get_last_page st + 1 \<le> p"
    by (simp_all add: get_top_movies_def TraktService_init_def)
  from ge have "\<forall>(b, p)\<in>set ?ys. get_last_page st \<le> p" by auto
  with s show "sorted (map get_last_page (run_stores isalnum clock ?ys st))"
    by (rule run_stores_sorted)
qed

theorem cursor_after_save_witness:
  "trakt (ids (sample_movie ''Up'' 42)) \<notin> indexed empty_store \<and>
   get_last_page (save_movies ascii_isalnum (\<lambda>k. ''now'') [sample_movie ''Up'' 42] 7 empty_store) = 7 \<and>
   trakt (ids (sample_movie ''Up'' 42)) \<in> indexed store_page3 \<and>
   save_movies ascii_isalnum (\<lambda>k. ''now'') [sample_movie ''Up'' 42] 7 store_page3 = store_page3 \<and>
   sorted (map get_last_page
     (run_stores ascii_isalnum (\<lambda>j k. ''now'')
        (yields (get_top_movies 2 (sample_env 200) (TraktService_init empty_store) 1)) empty_store))"
proof -
  have a0: "trakt (ids (sample_movie ''Up'' 42)) \<notin> indexed empty_store"
    by (simp add: indexed_def load_index_def empty_store_def)
  have b0: "trakt (ids (sample_movie ''Up'' 42)) \<in> indexed store_page3"
    by code_simp
  from a0 have a: "\<exists>m\<in>set [sample_movie ''Up'' 42]. trakt (ids m) \<notin> indexed empty_store"
    by simp
  from b0 have b: "\<forall>m\<in>set [sample_movie ''Up'' 42]. trakt (ids m) \<in> indexed store_page3"
    by simp
  note t1 = cursor_after_save [of "[sample_movie ''Up'' 42]" empty_store ascii_isalnum
      "\<lambda>k. ''now''" 7 "\<lambda>j k. ''now''" 2 "sample_env 200" 1]
  note t2 = cursor_after_save [of "[sample_movie ''Up'' 42]" store_page3 ascii_isalnum
      "\<lambda>k. ''now''" 7 "\<lambda>j k. ''now''" 2 "sample_env 200" 1]
  from a b a0 b0 t1 t2 show ?thesis by blast
qed

text \<open>
  The claim as stated fails where every item of the batch is already indexed: the store
  with cursor 3 keeps it when the indexed movie 42 is saved again with page 5.
\<close>

theorem cursor_after_resave_counterexample:
  "get_last_page (save_movies ascii_isalnum (\<lambda>k. ''now'') [sample_movie ''Up'' 42] 5 store_page3) \<noteq> 5"
  by code_simp

subsection \<open>The limiter on the request path\<close>

text \<open>
  Claim C3, as amended. In every run of \<open>get_top_movies\<close>, every request to Trakt (the
  listing and the details, stats and ratings lookups of a new item) comes directly after a
  call of \<open>_respect_rate_limit\<close>, and the keyword lookup at TMDB is sent without one:
  \<open>TMDBService\<close> has no limiter.
\<close>

theorem trakt_requests_through_limiter:
  "each_get trakt_through_limiter None (events (get_top_movies fuel e self limit))"
  unfolding get_top_movies_def by (rule top_loop_limited)

theorem trakt_requests_through_limiter_witness:
  "each_get trakt_through_limiter None
     (events (get_top_movies 2 (sample_env 200) (TraktService_init empty_store) 1)) \<and>
   events (get_top_movies 2 (sample_env 200) (TraktService_init empty_store) 1) =
     [RateLimit, Get (MoviesPopular 1 1 (2010, 2023)),
      RateLimit, Get (MovieDetails ''up-2009''),
      RateLimit, Get (MovieStats ''up-2009''),
      RateLimit, Get (MovieRatings ''up-2009''),
      Get (TmdbKeywords 5)]"
proof -
  have "events (get_top_movies 2 (sample_env 200) (TraktService_init empty_store) 1) =
     [RateLimit, Get (MoviesPopular 1 1 (2010, 2023)),
      RateLimit, Get (MovieDetails ''up-2009''),
      RateLimit, Get (MovieStats ''up-2009''),
      RateLimit, Get (MovieRatings ''up-2009''),
      Get (TmdbKeywords 5)]"
    by code_simp
  with trakt_requests_through_limiter [of 2 "sample_env 200" "TraktService_init empty_store" 1]
  show ?thesis by blast
qed

text \<open>
  The claim as stated fails: in the run that fetches movie 42 the keyword lookup follows
  the ratings lookup with no wait of the limiter in between.
\<close>

theorem keyword_lookup_not_limited:
  "\<not> each_get through_limiter None
       (events (get_top_movies 2 (sample_env 200) (TraktService_init empty_store) 1))"
  by code_simp

subsection \<open>Cadence of the limiter\<close>

text \<open>
  Claim C6, as amended. For every sequence of calls of \<open>_respect_rate_limit\<close>, the value
  \<open>b\<close> of \<open>last_request_time\<close> set by a call (the reading of the clock just after its wait)
  and the value \<open>a\<close> set by the call before it satisfy
  \<open>b - a \<ge> WINDOW_SIZE / MAX_REQUESTS - rounding_slack a b\<close>, where
  \<open>rounding_slack a b = (a + b + 1) / 2 ^ 50\<close> accounts for the rounding of Python's floats
  in the two readings of the clock, the two subtractions and the constant \<open>REQUEST_DELAY\<close>.
  The clock does not run backwards (work, overshoot and lag are not negative; in
  particular \<open>time.sleep\<close> does not return early) and starts at a time that is not
  negative; a reading of the clock is the float nearest to the time.
\<close>

theorem rate_limiter_cadence:
  "0 \<le> wall_clock w \<Longrightarrow>
   \<forall>(work, overshoot, lag)\<in>set calls. 0 \<le> work \<and> 0 \<le> overshoot \<and> 0 \<le> lag \<Longrightarrow>
   successively (\<lambda>a b. WINDOW_SIZE / MAX_REQUESTS - rounding_slack a b \<le> b - a)
     (limiter_calls calls w)"
proof (cases calls)
  case Nil
  then show ?thesis by simp
next
  case (Cons c rest)
  assume T: "0 \<le> wall_clock w"
    and nn: "\<forall>(work, overshoot, lag)\<in>set calls. 0 \<le> work \<and> 0 \<le> overshoot \<and> 0 \<le> lag"
  obtain work overshoot lag where c: "c = (work, overshoot, lag)" by (cases c)
  let ?w0 = "w\<lparr>wall_clock := wall_clock w + work\<rparr>"
  let ?w' = "respect_rate_limit overshoot lag ?w0"
  from nn Cons c have c0: "0 \<le> work" "0 \<le> overshoot" "0 \<le> lag" by auto
  from T c0(1) have T0: "0 \<le> wall_clock ?w0" by simp
  note step = respect_rate_limit_clock [OF T0 c0(2) c0(3)]
  from step(1) T0 have T': "0 \<le> wall_clock ?w'" by linarith
  from nn Cons have
    "\<forall>(work, overshoot, lag)\<in>set rest. 0 \<le> work \<and> 0 \<le> overshoot \<and> 0 \<le> lag" by simp
  from limiter_calls_gaps [OF T' step(2) this] Cons c show ?thesis by (simp add: Let_def)
qed

theorem rate_limiter_cadence_witness:
  "0 \<le> wall_clock sample_limiter \<and>
   limiter_calls [(0, 0, 0), (0, 0, 0), (1 / 10, 0, 1 / 100), (1, 1 / 1000, 0)] sample_limiter =
     [1000, 4399365925057331 / 4398046511104, 8801458638951547 / 8796093022208,
      8810254731973755 / 8796093022208] \<and>
   successively (\<lambda>a b. WINDOW_SIZE / MAX_REQUESTS - rounding_slack a b \<le> b - a)
     (limiter_calls [(0, 0, 0), (0, 0, 0), (1 / 10, 0, 1 / 100), (1, 1 / 1000, 0)] sample_limiter)"
proof -
  have T: "0 \<le> wall_clock sample_limiter" by (simp add: sample_limiter_def)
  have h: "\<forall>(work, overshoot, lag)\<in>set ([(0, 0, 0), (0, 0, 0), (1 / 10, 0, 1 / 100),
                                           (1, 1 / 1000, 0)] :: (rat \<times> rat \<times> rat) list).
             0 \<le> work \<and> 0 \<le> overshoot \<and> 0 \<le> lag"
    by simp
  have v: "limiter_calls [(0, 0, 0), (0, 0, 0), (1 / 10, 0, 1 / 100), (1, 1 / 1000, 0)]
             sample_limiter =
           [1000, 4399365925057331 / 4398046511104, 8801458638951547 / 8796093022208,
            8810254731973755 / 8796093022208]"
    by code_simp
  from rate_limiter_cadence [OF T h] T v show ?thesis by blast
qed

text \<open>
  The claim as stated fails: the bound \<open>WINDOW_SIZE / MAX_REQUESTS\<close> itself is not kept.
  \<open>REQUEST_DELAY\<close> is the float below \<open>3 / 10\<close>, and with the clock at 1000 seconds, no
  work between two calls, no overshoot and no lag, the second call sleeps
  \<open>REQUEST_DELAY\<close> seconds and its reading of the clock, rounded to a float, is less than
  \<open>3 / 10\<close> after the first (by \<open>0.2999999999999545\<close>).
\<close>

theorem rate_limiter_cadence_counterexample:
  "limiter_calls [(0, 0, 0), (0, 0, 0)] sample_limiter =
     [1000, 4399365925057331 / 4398046511104] \<and>
   4399365925057331 / 4398046511104 - 1000 < WINDOW_SIZE / MAX_REQUESTS \<and>
   REQUEST_DELAY < WINDOW_SIZE / MAX_REQUESTS \<and>
   \<not> successively (\<lambda>a b. WINDOW_SIZE / MAX_REQUESTS \<le> b - a)
         (limiter_calls [(0, 0, 0), (0, 0, 0)] sample_limiter)"
  by code_simp

subsection \<open>Page sizes\<close>

text \<open>
  Claim C10. Every listing request of \<open>get_top_movies(limit)\<close> asks for
  \<open>min (limit - total_processed) 20\<close> movies, which is at least 1 and at most 20, where
  \<open>total_processed\<close> is the number of movies taken up so far. The first request of a run
  is for the page \<open>start_page\<close> with \<open>min limit 20\<close> movies, so the same page number
  stands for different ranges of the catalog in runs with different limits.
\<close>

theorem listing_page_sizes:
  "page_sizes_ok limit 0 (events (get_top_movies fuel e self limit)) \<and>
   (0 < limit \<longrightarrow>
      (\<exists>rest. events (get_top_movies (Suc fuel) e self limit) =
         RateLimit # Get (MoviesPopular (start_page self) (min limit 20) (START_YEAR, END_YEAR)) # rest))"
proof (intro conjI impI)
  show "page_sizes_ok limit 0 (events (get_top_movies fuel e self limit))"
    unfolding get_top_movies_def by (rule top_loop_sizes)
next
  assume "0 < limit"
  from top_loop_first [OF this, of fuel e "self_fetched_ids self" "[]" "start_page self" 0]
  show "\<exists>rest. events (get_top_movies (Suc fuel) e self limit) =
         RateLimit # Get (MoviesPopular (start_page self) (min limit 20) (START_YEAR, END_YEAR)) # rest"
    by (simp add: get_top_movies_def listing_request_def del: top_loop.simps)
qed

theorem listing_page_sizes_witness:
  "(0::int) < 5 \<and> (0::int) < 100 \<and>
   page_sizes_ok 5 0 (events (get_top_movies 1 (sample_env 200) (TraktService_init empty_store) 5)) \<and>
   (\<exists>rest. events (get_top_movies (Suc 1) (sample_env 200) (TraktService_init empty_store) 5) =
      RateLimit # Get (MoviesPopular (start_page (TraktService_init empty_store)) (min 5 20)
                        (START_YEAR, END_YEAR)) # rest) \<and>
   (\<exists>rest. events (get_top_movies (Suc 1) (sample_env 200) (TraktService_init empty_store) 100) =
      RateLimit # Get (MoviesPopular (start_page (TraktService_init empty_store)) (min 100 20)
                        (START_YEAR, END_YEAR)) # rest)"
proof -
  have h: "(0::int) < 5" "(0::int) < 100" by simp_all
  note a = listing_page_sizes [of 5 1 "sample_env 200" "TraktService_init empty_store"]
  note b = listing_page_sizes [of 100 1 "sample_env 200" "TraktService_init empty_store"]
  from a b h show ?thesis by blast
qed


subsection \<open>Batches\<close>




subsection \<open>Errors of the keyword lookup\<close>

text \<open>
  Claim C8, as amended. A keyword lookup answered with status 404 gives the empty keyword
  list and raises nothing, and the movie it belongs to is built with no keywords. A lookup
  answered with any other 4xx or 5xx status raises the HTTP error of
  \<open>raise_for_status\<close>, and in every run of \<open>get_top_movies\<close> such an answer is the last
  event of the run, which ends with that error. (A status outside 400 to 599 raises nothing
  by itself: \<open>raise_for_status\<close> lets it pass.)
\<close>

theorem keyword_lookup_errors:
  "(t \<noteq> 0 \<and> status_code (server e n (TmdbKeywords t)) = 404 \<longrightarrow>
      get_movie_keywords e n t = ([Get (TmdbKeywords t)], Suc n, Inr [])) \<and>
   (t \<noteq> 0 \<and> fatal_status (status_code (server e n (TmdbKeywords t))) \<longrightarrow>
      snd (snd (get_movie_keywords e n t)) =
      Inl (HTTPError (status_code (server e n (TmdbKeywords t))))) \<and>
   (fetch_movie e k md = (ev, k', Inr m) \<and> tmdb (ids m) = Some t \<and> t \<noteq> 0 \<and>
    status_code (server e (k + 3) (TmdbKeywords t)) = 404 \<longrightarrow> keywords m = []) \<and>
   keywords_fatal e 0 (events (get_top_movies fuel e self limit))
     (result (get_top_movies fuel e self limit))"
proof (intro conjI impI)
  assume "t \<noteq> 0 \<and> status_code (server e n (TmdbKeywords t)) = 404"
  then show "get_movie_keywords e n t = ([Get (TmdbKeywords t)], Suc n, Inr [])"
    by (simp add: get_movie_keywords_def Let_def)
next
  assume "t \<noteq> 0 \<and> fatal_status (status_code (server e n (TmdbKeywords t)))"
  then show "snd (snd (get_movie_keywords e n t)) =
             Inl (HTTPError (status_code (server e n (TmdbKeywords t))))"
    by (simp add: get_movie_keywords_def Let_def fatal_status_def raise_for_status_def)
next
  assume "fetch_movie e k md = (ev, k', Inr m) \<and> tmdb (ids m) = Some t \<and> t \<noteq> 0 \<and>
          status_code (server e (k + 3) (TmdbKeywords t)) = 404"
  then show "keywords m = []" using fetch_movie_404 by blast
next
  show "keywords_fatal e 0 (events (get_top_movies fuel e self limit))
          (result (get_top_movies fuel e self limit))"
    unfolding get_top_movies_def by (rule top_loop_fatal)
qed

theorem keyword_lookup_errors_witness:
  "(5::int) \<noteq> 0 \<and> status_code (server (sample_env 404) 4 (TmdbKeywords 5)) = 404 \<and>
   get_movie_keywords (sample_env 404) 4 5 = ([Get (TmdbKeywords 5)], Suc 4, Inr []) \<and>
   fatal_status (status_code (server (sample_env 500) 4 (TmdbKeywords 5))) \<and>
   snd (snd (get_movie_keywords (sample_env 500) 4 5)) = Inl (HTTPError 500) \<and>
   map (\<lambda>(b, p). map keywords b)
     (yields (get_top_movies 2 (sample_env 404) (TraktService_init empty_store) 1)) = [[[]]] \<and>
   result (get_top_movies 2 (sample_env 500) (TraktService_init empty_store) 1) =
     Raised (HTTPError 500) \<and>
   keywords_fatal (sample_env 500) 0
     (events (get_top_movies 2 (sample_env 500) (TraktService_init empty_store) 1))
     (result (get_top_movies 2 (sample_env 500) (TraktService_init empty_store) 1))"
proof -
  have a: "(5::int) \<noteq> 0" by simp
  have s4: "status_code (server (sample_env 404) 4 (TmdbKeywords 5)) = 404"
    by (simp add: sample_env_def sample_server_def)
  have s5: "status_code (server (sample_env 500) 4 (TmdbKeywords 5)) = 500"
    by (simp add: sample_env_def sample_server_def)
  have f5: "fatal_status (status_code (server (sample_env 500) 4 (TmdbKeywords 5)))"
    by (simp add: s5 fatal_status_def)
  have y: "map (\<lambda>(b, p). map keywords b)
     (yields (get_top_movies 2 (sample_env 404) (TraktService_init empty_store) 1)) = [[[]]]"
    by code_simp
  have r: "result (get_top_movies 2 (sample_env 500) (TraktService_init empty_store) 1) =
     Raised (HTTPError 500)"
    by code_simp
  note t4 = keyword_lookup_errors [of 5 "sample_env 404" 4 0 "catalog_ids 1" "[]" 0
      "sample_movie ''Up'' 42" 2 "TraktService_init empty_store" 1]
  note t5 = keyword_lookup_errors [of 5 "sample_env 500" 4 0 "catalog_ids 1" "[]" 0
      "sample_movie ''Up'' 42" 2 "TraktService_init empty_store" 1]
  from t4 a s4 have g4: "get_movie_keywords (sample_env 404) 4 5 = ([Get (TmdbKeywords 5)], Suc 4, Inr [])"
    by blast
  from t5 a f5 have g5: "snd (snd (get_movie_keywords (sample_env 500) 4 5)) =
      Inl (HTTPError (status_code (server (sample_env 500) 4 (TmdbKeywords 5))))"
    by blast
  from t5 have k: "keywords_fatal (sample_env 500) 0
     (events (get_top_movies 2 (sample_env 500) (TraktService_init empty_store) 1))
     (result (get_top_movies 2 (sample_env 500) (TraktService_init empty_store) 1))"
    by blast
  from a s4 g4 f5 g5 s5 y r k show ?thesis by simp
qed

text \<open>
  The claim as stated fails for a status that is neither 2xx nor an error of
  \<open>raise_for_status\<close>: a lookup answered with status 302 and a keyword body raises nothing
  and returns the keywords.
\<close>

theorem keyword_lookup_redirect_counterexample:
  "status_code (server (sample_env 302) 0 (TmdbKeywords 5)) = 302 \<and>
   snd (snd (get_movie_keywords (sample_env 302) 0 5)) = Inr [\<lparr>kw_id = 1, kw_name = ''balloon''\<rparr>]"
  by code_simp

subsection \<open>Duplicates within one batch\<close>

text \<open>
  Claim C4 does not hold of the code: \<open>save_movies\<close> filters a batch against the index as
  it was loaded and never against the items of the batch itself, so a batch that carries
  an identifier twice puts it twice into \<open>fetched_ids\<close>.
\<close>

theorem save_movies_duplicate_ids:
  "fetched_ids (load_index
     (save_movies ascii_isalnum (\<lambda>k. ''now'')
        [sample_movie ''Up'' 42, sample_movie ''Up'' 42] 1 empty_store)) = [42, 42]"
  by code_simp

text \<open>
  Such a batch comes out of the generator itself. From an empty store and with the limit
  21, a static catalog answers the second listing request (page 2 with page size 1) with
  movie 2, which the first page of 20 already held; the generator fetches it again, and
  the driver's save leaves the identifier 2 twice in the index.
\<close>

lemma duplicate_batch_from_generator:
  "fetched_ids (load_index
     (save_batches ascii_isalnum (\<lambda>j k. ''now'')
        (yields (get_top_movies 5 (catalog_env 100) (TraktService_init empty_store) 21))
        empty_store)) =
   [1, 2, 3, 4, 5, 6, 7, 8, 9, 10, 11, 12, 13, 14, 15, 16, 17, 18, 19, 20, 2]"
  by code_simp

text \<open>
  Claim C5 does not hold of the code in its last part, by the same defect: after the two
  overlapping calls below the index has two entries for the identifier 42. The second call
  itself adds nothing (see \<open>save_movies_idempotent\<close>).
\<close>

theorem save_movies_twice_duplicate_entries:
  "length (entries_of_id 42 (movies (load_index
     (save_movies ascii_isalnum (\<lambda>k. ''now'') [sample_movie ''Up'' 42] 2
        (save_movies ascii_isalnum (\<lambda>k. ''now'')
           [sample_movie ''Up'' 42, sample_movie ''Up'' 42] 1 empty_store))))) = 2"
  by code_simp

end
